theory Spec2Isabelle
  imports Main
begin

section \<open>Tokenizer (parser.c)\<close>

text \<open>
  \<^verbatim>\<open>#define MAX_ARGS 64\<close> and \<^verbatim>\<open>#define DELIMITERS " \t\r\n\a"\<close> of shell.h.
\<close>

definition MAX_ARGS :: nat where
  "MAX_ARGS = 64"

definition DELIMITERS :: string where
  "DELIMITERS = [CHR '' '', CHR 0x09, CHR 0x0D, CHR 0x0A, CHR 0x07]"

definition is_delim :: "char \<Rightarrow> bool" where
  "is_delim c = (c \<in> set DELIMITERS)"

text \<open>
  A \<^verbatim>\<open>char *\<close> handed to \<^verbatim>\<open>strtok\<close> is read up to its first NUL byte: the C string
  held by a buffer is the part before that byte.
\<close>

definition c_string :: "string \<Rightarrow> string" where
  "c_string buf = takeWhile (\<lambda>c. c \<noteq> CHR 0x00) buf"

text \<open>
  One call of \<^verbatim>\<open>strtok\<close> on the text that is left: it skips the leading delimiters, and
  returns no token when nothing follows; otherwise the token runs to the next delimiter,
  that delimiter is overwritten with NUL, and the scan resumes behind it on the next call.
\<close>

definition strtok :: "string \<Rightarrow> (string \<times> string) option" where
  "strtok s =
     (let s1 = dropWhile is_delim s
      in if s1 = [] then None
         else Some (takeWhile (\<lambda>c. \<not> is_delim c) s1,
                    drop 1 (dropWhile (\<lambda>c. \<not> is_delim c) s1)))"

text \<open>
  The \<^verbatim>\<open>while (token != NULL)\<close> loop of \<^verbatim>\<open>parse_input\<close>. \<open>tokens\<close> are the cells
  \<open>0 ..< position\<close> written so far, \<open>bufsize\<close> the capacity of the buffer; \<open>alloc n\<close>
  tells whether the allocator grants a buffer of \<open>n\<close> pointers. A refused \<^verbatim>\<open>realloc\<close>
  ends the process (\<^verbatim>\<open>exit(EXIT_FAILURE)\<close>): the result is \<open>None\<close>. On return the
  array is \<open>tokens\<close> followed by the NULL written at \<^verbatim>\<open>tokens[position]\<close>.
\<close>

function parse_loop ::
  "(nat \<Rightarrow> bool) \<Rightarrow> string list \<Rightarrow> nat \<Rightarrow> (string \<times> string) option \<Rightarrow> string list option"
where
  "parse_loop alloc tokens bufsize None = Some tokens"
| "parse_loop alloc tokens bufsize (Some (token, rest)) =
     (let tokens' = tokens @ [token];
          position = length tokens'
      in if position \<ge> bufsize
         then (if alloc (bufsize + MAX_ARGS)
               then parse_loop alloc tokens' (bufsize + MAX_ARGS) (strtok rest)
               else None)
         else parse_loop alloc tokens' bufsize (strtok rest))"
  by pat_completeness auto

lemma strtok_shorter: "strtok s = Some (t, r) \<Longrightarrow> length r < length s"
proof -
  assume a: "strtok s = Some (t, r)"
  define s1 where "s1 = dropWhile is_delim s"
  define s2 where "s2 = dropWhile (\<lambda>c. \<not> is_delim c) s1"
  from a have ne: "s1 \<noteq> []" and r: "r = drop 1 s2"
    by (auto simp: strtok_def Let_def s1_def s2_def split: if_splits)
  have "length s2 \<le> length s1"
    unfolding s2_def by (rule length_dropWhile_le)
  moreover have "length s1 \<le> length s"
    unfolding s1_def by (rule length_dropWhile_le)
  ultimately show ?thesis using ne unfolding r by (cases s1) auto
qed

termination parse_loop
proof (relation "measure (\<lambda>(alloc, tokens, bufsize, tok).
          case tok of None \<Rightarrow> 0 | Some (t, r) \<Rightarrow> Suc (length r))")
qed (auto split: option.splits dest: strtok_shorter)

definition parse_input :: "(nat \<Rightarrow> bool) \<Rightarrow> string \<Rightarrow> string list option" where
  "parse_input alloc line =
     (if alloc MAX_ARGS then parse_loop alloc [] MAX_ARGS (strtok (c_string line)) else None)"

text \<open>
  The specification's reading of the tokenizer, for comparison: the fields between
  single delimiters, with the empty fields (those between the delimiters of one run,
  and before the first and after the last delimiter) left out.
\<close>

fun delim_fields :: "string \<Rightarrow> string list" where
  "delim_fields [] = [[]]"
| "delim_fields (c # cs) =
     (if is_delim c then [] # delim_fields cs
      else (case delim_fields cs of [] \<Rightarrow> [[c]] | f # fs \<Rightarrow> (c # f) # fs))"

definition spec_tokens :: "string \<Rightarrow> string list" where
  "spec_tokens s = filter (\<lambda>t. t \<noteq> []) (delim_fields s)"

section \<open>The process environment\<close>

text \<open>
  The shell acts on the operating system through system calls and the C library. The
  state \<open>world\<close> keeps what the code can observe of it: the descriptor table of the shell
  process (index = descriptor number, length = the descriptor limit, \<open>None\<close> = free);
  the in-memory history of history.c; and the \<open>trace\<close> of the calls made and the text
  written so far, in order. What the environment answers is not decided by the program:
  \<open>grants n\<close> tells whether the request made when the trace has length \<open>n\<close> succeeds
  (a file can be opened, a process created, a program found), \<open>stops n\<close> how often the
  child waited for at that moment is reported as stopped before it ends, \<open>bytes n\<close>
  the contents of the stream opened at that moment. Every request appends to the trace,
  so each request has an answer of its own. The model describes the runs in which a
  launched program ends and a file that is read is finite.
\<close>

datatype oflag = O_RDONLY | O_WRONLY_CREAT_TRUNC

datatype ofile = Stream string | File string oflag | Pipe_read nat | Pipe_write nat

datatype parg = I int | S string

datatype event =
    Printf string "parg list"
  | Fprintf_stderr string
  | Perror string
  | Sys_open "string option" oflag int
  | Sys_pipe bool
  | Sys_fork bool
  | Child_exec "string option" "string list" "ofile option" "ofile option" bool
  | Child_perror string
  | Sys_wait
  | Sys_waitpid bool
  | Sys_chdir string bool
  | Sys_fopen string string bool
  | Sys_fwrite string string
  | Sys_fclose string
  | Sys_rename string string bool
  | Sys_remove string bool

record world =
  fdt :: "ofile option list"
  history :: "string list"
  grants :: "nat \<Rightarrow> bool"
  stops :: "nat \<Rightarrow> nat"
  bytes :: "nat \<Rightarrow> string"
  trace :: "event list"

definition emit :: "event \<Rightarrow> world \<Rightarrow> world" where
  "emit e w = w\<lparr>trace := trace w @ [e]\<rparr>"

definition granted :: "world \<Rightarrow> bool" where
  "granted w = grants w (length (trace w))"

definition perror :: "string \<Rightarrow> world \<Rightarrow> world" where
  "perror s w = emit (Perror s) w"

subsection \<open>Descriptors\<close>

definition fd_open :: "ofile option list \<Rightarrow> int \<Rightarrow> bool" where
  "fd_open T fd = (0 \<le> fd \<and> nat fd < length T \<and> T ! nat fd \<noteq> None)"

text \<open>The lowest descriptor number that is free, as POSIX allocates descriptors.\<close>

fun lowest_free :: "ofile option list \<Rightarrow> nat option" where
  "lowest_free [] = None"
| "lowest_free (None # T) = Some 0"
| "lowest_free (Some f # T) = map_option Suc (lowest_free T)"

text \<open>
  \<^verbatim>\<open>dup(fd)\<close>: -1 when \<open>fd\<close> is not open (EBADF) or no descriptor is free (EMFILE),
  else the lowest free descriptor, bound to what \<open>fd\<close> is bound to.
\<close>

definition sys_dup :: "world \<Rightarrow> int \<Rightarrow> int \<times> world" where
  "sys_dup w fd =
     (if \<not> fd_open (fdt w) fd then (- 1, w)
      else (case lowest_free (fdt w) of
              None \<Rightarrow> (- 1, w)
            | Some n \<Rightarrow> (int n, w\<lparr>fdt := (fdt w)[n := fdt w ! nat fd]\<rparr>)))"

text \<open>
  \<^verbatim>\<open>dup2(oldfd, newfd)\<close>: -1 and no change when \<open>oldfd\<close> is not open or \<open>newfd\<close> is out
  of range; else \<open>newfd\<close> is rebound to what \<open>oldfd\<close> is bound to.
\<close>

definition sys_dup2 :: "world \<Rightarrow> int \<Rightarrow> int \<Rightarrow> int \<times> world" where
  "sys_dup2 w oldfd newfd =
     (if \<not> fd_open (fdt w) oldfd \<or> newfd < 0 \<or> nat newfd \<ge> length (fdt w) then (- 1, w)
      else (newfd, w\<lparr>fdt := (fdt w)[nat newfd := fdt w ! nat oldfd]\<rparr>))"

text \<open>\<^verbatim>\<open>close(fd)\<close>; the shell never looks at its result.\<close>

definition sys_close :: "world \<Rightarrow> int \<Rightarrow> world" where
  "sys_close w fd =
     (if fd_open (fdt w) fd then w\<lparr>fdt := (fdt w)[nat fd := None]\<rparr> else w)"

text \<open>
  \<^verbatim>\<open>open(path, flags)\<close>: fails on a NULL path, when the environment refuses, and when
  no descriptor is free; the call and its result are appended to the trace.
\<close>

definition sys_open :: "world \<Rightarrow> string option \<Rightarrow> oflag \<Rightarrow> int \<times> world" where
  "sys_open w path flags =
     (case path of
        None \<Rightarrow> (- 1, emit (Sys_open path flags (- 1)) w)
      | Some p \<Rightarrow>
          (if granted w then
             (case lowest_free (fdt w) of
                None \<Rightarrow> (- 1, emit (Sys_open path flags (- 1)) w)
              | Some n \<Rightarrow> (int n, emit (Sys_open path flags (int n))
                                      (w\<lparr>fdt := (fdt w)[n := Some (File p flags)]\<rparr>)))
           else (- 1, emit (Sys_open path flags (- 1)) w)))"

text \<open>
  \<^verbatim>\<open>pipe(fds)\<close>: two free descriptors, the lower for the read end; on failure nothing
  is allocated.
\<close>

definition sys_pipe :: "world \<Rightarrow> (int \<times> int) option \<times> world" where
  "sys_pipe w =
     (let T = fdt w; k = length (trace w)
      in if granted w then
           (case lowest_free T of
              None \<Rightarrow> (None, emit (Sys_pipe False) w)
            | Some r \<Rightarrow>
                (case lowest_free (T[r := Some (Pipe_read k)]) of
                   None \<Rightarrow> (None, emit (Sys_pipe False) w)
                 | Some wr \<Rightarrow>
                     (Some (int r, int wr),
                      emit (Sys_pipe True)
                        (w\<lparr>fdt := T[r := Some (Pipe_read k), wr := Some (Pipe_write k)]\<rparr>))))
         else (None, emit (Sys_pipe False) w))"

subsection \<open>Argument arrays\<close>

text \<open>
  A \<^verbatim>\<open>char **args\<close> is the list of its cells in front of the NULL that \<^verbatim>\<open>parse_input\<close>
  wrote behind the last token; that NULL is always there and is not part of the list.
  A cell is \<open>Some\<close> token or \<open>None\<close> (NULL): the code overwrites cells with NULL.
  \<open>cell args i\<close> reads \<^verbatim>\<open>args[i]\<close>; at \<open>i = length args\<close> this is the final NULL. The
  code reads \<^verbatim>\<open>args[i + 1]\<close> only after it has seen \<^verbatim>\<open>args[i] != NULL\<close>, so it never
  reads behind the final NULL.
\<close>

type_synonym cell = "string option"

definition cell :: "cell list \<Rightarrow> nat \<Rightarrow> cell" where
  "cell args i = (if i < length args then args ! i else None)"

text \<open>What \<^verbatim>\<open>execvp\<close> and the built-ins see of an array: the tokens up to the first NULL.\<close>

fun argv_of :: "cell list \<Rightarrow> string list" where
  "argv_of [] = []"
| "argv_of (None # cs) = []"
| "argv_of (Some t # cs) = t # argv_of cs"

section \<open>External processes and redirection (executor.c)\<close>

definition bound_to :: "ofile option list \<Rightarrow> nat \<Rightarrow> ofile option" where
  "bound_to T n = (if n < length T then T ! n else None)"

text \<open>
  The child's side of \<^verbatim>\<open>execvp(args[0], args)\<close>, recorded in the trace with what the
  child's descriptors 0 and 1 are bound to. With a NULL \<^verbatim>\<open>args[0]\<close> the call reads
  through the null pointer: the child is killed inside \<^verbatim>\<open>execvp\<close> and reports nothing.
  Otherwise the call fails when the environment finds no such program; the child then
  reports with \<^verbatim>\<open>perror(msg)\<close> and exits.
\<close>

definition child_execvp :: "string \<Rightarrow> ofile option list \<Rightarrow> cell list \<Rightarrow> world \<Rightarrow> world" where
  "child_execvp msg T args w =
     (case cell args 0 of
        None \<Rightarrow> emit (Child_exec None (argv_of args) (bound_to T 0) (bound_to T 1) False) w
      | Some prog \<Rightarrow>
          (let found = granted w;
               w1 = emit (Child_exec (Some prog) (argv_of args) (bound_to T 0) (bound_to T 1) found) w
           in if found then w1 else emit (Child_perror msg) w1))"

text \<open>
  The parent's \<^verbatim>\<open>do { waitpid(...) } while (!WIFEXITED(status) && !WIFSIGNALED(status))\<close>:
  \<open>k\<close> reports of a stopped child, then the report that it has ended.
\<close>

fun wait_child :: "nat \<Rightarrow> world \<Rightarrow> world" where
  "wait_child 0 w = emit (Sys_waitpid True) w"
| "wait_child (Suc k) w = wait_child k (emit (Sys_waitpid False) w)"

definition launch_process :: "world \<Rightarrow> cell list \<Rightarrow> int \<times> world" where
  "launch_process w args =
     (let ok = granted w;
          w1 = emit (Sys_fork ok) w
      in if ok then
           (let w2 = child_execvp ''shell'' (fdt w1) args w1;
                w3 = wait_child (stops w2 (length (trace w2))) w2
            in (1, w3))
         else (1, perror ''shell'' w1))"

text \<open>
  \<^verbatim>\<open>handle_redirection\<close>: the loop \<^verbatim>\<open>for (i = 0; args[i] != NULL; i++)\<close> walks the cells;
  the first argument of the recursion is the array from cell \<open>i\<close> on. At an operator the
  cell is overwritten with NULL and \<^verbatim>\<open>args[i + 1]\<close> (the head of \<open>rest\<close>, or the final
  NULL) is opened; the loop then goes on with cell \<open>i + 1\<close>. The result is the
  world, the array as the loop leaves it, and the values left in \<^verbatim>\<open>*in_fd\<close> and
  \<^verbatim>\<open>*out_fd\<close>.
\<close>

fun handle_redirection ::
  "world \<Rightarrow> cell list \<Rightarrow> int \<Rightarrow> int \<Rightarrow> world \<times> cell list \<times> int \<times> int"
where
  "handle_redirection w [] in_fd out_fd = (w, [], in_fd, out_fd)"
| "handle_redirection w (None # rest) in_fd out_fd = (w, None # rest, in_fd, out_fd)"
| "handle_redirection w (Some t # rest) in_fd out_fd =
     (if t = ''>'' then
        (let (fd, w1) = sys_open w (cell rest 0) O_WRONLY_CREAT_TRUNC;
             w2 = (if fd < 0 then perror ''shell'' w1 else w1);
             (w3, rest', in_fd', out_fd') = handle_redirection w2 rest in_fd fd
         in (w3, None # rest', in_fd', out_fd'))
      else if t = ''<'' then
        (let (fd, w1) = sys_open w (cell rest 0) O_RDONLY;
             w2 = (if fd < 0 then perror ''shell'' w1 else w1);
             (w3, rest', in_fd', out_fd') = handle_redirection w2 rest fd out_fd
         in (w3, None # rest', in_fd', out_fd'))
      else
        (let (w3, rest', in_fd', out_fd') = handle_redirection w rest in_fd out_fd
         in (w3, Some t # rest', in_fd', out_fd')))"

subsection \<open>Pipelines\<close>

text \<open>
  The first loop of \<^verbatim>\<open>execute_pipeline\<close>: \<open>k\<close> pipes, their descriptors stored in
  order (read end, write end). A failed \<^verbatim>\<open>pipe\<close> is reported and ends the function.
\<close>

fun make_pipes :: "nat \<Rightarrow> world \<Rightarrow> int list option \<times> world" where
  "make_pipes 0 w = (Some [], w)"
| "make_pipes (Suc k) w =
     (case sys_pipe w of
        (None, w1) \<Rightarrow> (None, perror ''pipe'' w1)
      | (Some (r, wr), w1) \<Rightarrow>
          (case make_pipes k w1 of
             (None, w2) \<Rightarrow> (None, w2)
           | (Some fds, w2) \<Rightarrow> (Some (r # wr # fds), w2)))"

text \<open>
  The child of stage \<open>i\<close> (\<^verbatim>\<open>pid == 0\<close>). It works on its own copy of the descriptor
  table; the parent's table is not touched, and the child's steps are appended to the
  trace. \<open>cmd_args ! i\<close> is the offset in \<open>args\<close> at which the stage's array starts
  (\<^verbatim>\<open>cmd_args[i] = &args[...]\<close>).
\<close>

definition child_stage ::
  "cell list \<Rightarrow> nat list \<Rightarrow> int list \<Rightarrow> nat \<Rightarrow> nat \<Rightarrow> world \<Rightarrow> world"
where
  "child_stage args cmd_args pipefd num_cmds i w =
     (let c1 = (if i \<noteq> 0
                then (let (r, c) = sys_dup2 w (pipefd ! ((i - 1) * 2)) 0
                      in if r < 0 then emit (Child_perror ''dup2'') c else c)
                else w);
          c2 = (if i \<noteq> num_cmds - 1
                then (let (r, c) = sys_dup2 c1 (pipefd ! (i * 2 + 1)) 1
                      in if r < 0 then emit (Child_perror ''dup2'') c else c)
                else c1);
          c3 = fold (\<lambda>fd c. sys_close c fd) pipefd c2;
          c4 = child_execvp ''execvp'' (fdt c3) (drop (cmd_args ! i) args) c3
      in c4\<lparr>fdt := fdt w\<rparr>)"

text \<open>
  The second loop, \<^verbatim>\<open>for (i = 0; i < num_cmds; i++)\<close>, over the stage numbers still to
  come. The result is \<open>False\<close> when the loop left the function through
  \<^verbatim>\<open>perror("fork"); return 1;\<close>.
\<close>

fun spawn_loop ::
  "cell list \<Rightarrow> nat list \<Rightarrow> int list \<Rightarrow> nat \<Rightarrow> nat list \<Rightarrow> world \<Rightarrow> bool \<times> world"
where
  "spawn_loop args cmd_args pipefd num_cmds [] w = (True, w)"
| "spawn_loop args cmd_args pipefd num_cmds (i # is) w =
     (let ok = granted w;
          w1 = emit (Sys_fork ok) w
      in if ok
         then spawn_loop args cmd_args pipefd num_cmds is
                (child_stage args cmd_args pipefd num_cmds i w1)
         else (False, perror ''fork'' w1))"

fun wait_all :: "nat \<Rightarrow> world \<Rightarrow> world" where
  "wait_all 0 w = w"
| "wait_all (Suc k) w = wait_all k (emit Sys_wait w)"

text \<open>
  \<^verbatim>\<open>execute_pipeline(cmd_args, num_cmds)\<close>; \<open>pipefd\<close> has \<^verbatim>\<open>2 * (num_cmds - 1)\<close> entries,
  all of them closed by the parent once every stage is started.
\<close>

definition execute_pipeline :: "world \<Rightarrow> cell list \<Rightarrow> nat list \<Rightarrow> nat \<Rightarrow> int \<times> world" where
  "execute_pipeline w args cmd_args num_cmds =
     (case make_pipes (num_cmds - 1) w of
        (None, w1) \<Rightarrow> (1, w1)
      | (Some pipefd, w1) \<Rightarrow>
          (case spawn_loop args cmd_args pipefd num_cmds [0..<num_cmds] w1 of
             (False, w2) \<Rightarrow> (1, w2)
           | (True, w2) \<Rightarrow>
               (1, wait_all num_cmds (fold (\<lambda>fd c. sys_close c fd) pipefd w2))))"

text \<open>
  The two loops of \<^verbatim>\<open>execute_command\<close> over the tokens: counting the \<^verbatim>\<open>|\<close> tokens, and
  cutting the array at them. \<open>split_pipes args i\<close> works on the array from cell \<open>i\<close>
  on; it returns the cells as the loop leaves them and the offsets \<^verbatim>\<open>i + 1\<close> stored
  in \<^verbatim>\<open>cmd_args[1..]\<close>.
\<close>

fun count_pipes :: "cell list \<Rightarrow> nat" where
  "count_pipes [] = 0"
| "count_pipes (None # rest) = 0"
| "count_pipes (Some t # rest) = (if t = ''|'' then 1 else 0) + count_pipes rest"

fun split_pipes :: "cell list \<Rightarrow> nat \<Rightarrow> cell list \<times> nat list" where
  "split_pipes [] i = ([], [])"
| "split_pipes (None # rest) i = (None # rest, [])"
| "split_pipes (Some t # rest) i =
     (let (rest', offs) = split_pipes rest (i + 1)
      in if t = ''|'' then (None # rest', (i + 1) # offs) else (Some t # rest', offs))"

section \<open>Built-in commands (builtins.c, history.c)\<close>

definition nl :: string where
  "nl = [CHR 0x0A]"

definition dquote :: "string \<Rightarrow> string" where
  "dquote s = CHR 0x22 # s @ [CHR 0x22]"

definition builtin_str :: "string list" where
  "builtin_str = [''cd'', ''exit'', ''help'', ''clear'', ''about'',
                  ''history'', ''count'', ''cp'', ''mv'', ''rm'']"

definition shell_cd :: "world \<Rightarrow> cell list \<Rightarrow> int \<times> world" where
  "shell_cd w args =
     (case cell args 1 of
        None \<Rightarrow> (1, emit (Fprintf_stderr (''shell: expected argument to '' @ dquote ''cd'' @ nl)) w)
      | Some dir \<Rightarrow>
          (let ok = granted w;
               w1 = emit (Sys_chdir dir ok) w
           in (1, if ok then w1 else perror ''shell'' w1)))"

definition shell_exit :: "world \<Rightarrow> cell list \<Rightarrow> int \<times> world" where
  "shell_exit w args = (0, w)"

definition shell_help :: "world \<Rightarrow> cell list \<Rightarrow> int \<times> world" where
  "shell_help w args =
     (let w1 = emit (Printf (''Custom Shell Help'' @ nl) []) w;
          w2 = emit (Printf (''Type program names and arguments, and hit enter.'' @ nl) []) w1;
          w3 = emit (Printf (''The following are built in:'' @ nl) []) w2;
          w4 = fold (\<lambda>name. emit (Printf (''  %s'' @ nl) [S name])) builtin_str w3;
          w5 = emit (Printf (''Use the man command for information on other programs.'' @ nl) []) w4
      in (1, w5))"

definition shell_clear :: "world \<Rightarrow> cell list \<Rightarrow> int \<times> world" where
  "shell_clear w args = (1, emit (Printf ([CHR 0x1B] @ ''[H'' @ [CHR 0x1B] @ ''[J'') []) w)"

definition shell_about :: "world \<Rightarrow> cell list \<Rightarrow> int \<times> world" where
  "shell_about w args =
     (let w1 = emit (Printf (''Custom Shell v1.0'' @ nl) []) w;
          w2 = emit (Printf (''Developed for the Terminal Project.'' @ nl) []) w1
      in (1, w2))"

text \<open>\<^verbatim>\<open>print_history\<close> of history.c: the recorded lines, numbered from 1.\<close>

definition print_history :: "world \<Rightarrow> world" where
  "print_history w =
     fold (\<lambda>(i, h). emit (Printf (''%d %s'' @ nl) [I (int i + 1), S h]))
          (enumerate 0 (history w)) w"

definition shell_history :: "world \<Rightarrow> cell list \<Rightarrow> int \<times> world" where
  "shell_history w args = (1, print_history w)"

text \<open>
  The reading loop of \<^verbatim>\<open>shell_count\<close>. The result of \<^verbatim>\<open>fgetc\<close> is stored in a
  \<^verbatim>\<open>char\<close> before it is compared with \<^verbatim>\<open>EOF\<close>; where \<^verbatim>\<open>char\<close> is signed (as on
  x86-64 Linux) the byte \<open>0xFF\<close> compares equal to \<^verbatim>\<open>EOF\<close> and ends the loop as the
  end of the file does. The counters are 32-bit \<^verbatim>\<open>int\<close>: \<open>incr\<close> is \<^verbatim>\<open>x++\<close>, which
  past \<open>2^31 - 1\<close> continues at \<open>- 2^31\<close> as the compiled code does.
\<close>

definition incr :: "int \<Rightarrow> int" where
  "incr x = (x + 1 + 2147483648) mod 4294967296 - 2147483648"

fun count_loop :: "string \<Rightarrow> int \<Rightarrow> int \<Rightarrow> int \<Rightarrow> int \<Rightarrow> int \<times> int \<times> int" where
  "count_loop [] lines words chars state = (lines, words, chars)"
| "count_loop (c # cs) lines words chars state =
     (if c = CHR 0xFF then (lines, words, chars)
      else
        (let chars' = incr chars;
             lines' = (if c = CHR 0x0A then incr lines else lines)
         in if c = CHR '' '' \<or> c = CHR 0x0A \<or> c = CHR 0x09
            then count_loop cs lines' words chars' 0
            else if state = 0
            then count_loop cs lines' (incr words) chars' 1
            else count_loop cs lines' words chars' state))"

definition shell_count :: "world \<Rightarrow> cell list \<Rightarrow> int \<times> world" where
  "shell_count w args =
     (case cell args 1 of
        None \<Rightarrow>
          (1, emit (Fprintf_stderr (''shell: expected argument to '' @ dquote ''count'' @ nl)) w)
      | Some path \<Rightarrow>
          (let ok = granted w;
               content = bytes w (length (trace w));
               w1 = emit (Sys_fopen path ''r'' ok) w
           in if \<not> ok then (1, perror ''shell'' w1)
              else
                (let (lines, words, chars) = count_loop content 0 0 0 0;
                     w2 = emit (Printf (''Lines: %d'' @ nl) [I lines]) w1;
                     w3 = emit (Printf (''Words: %d'' @ nl) [I words]) w2;
                     w4 = emit (Printf (''Chars: %d'' @ nl) [I chars]) w3;
                     w5 = emit (Sys_fclose path) w4
                 in (1, w5))))"

text \<open>
  The copy loop of \<^verbatim>\<open>shell_cp\<close>: \<^verbatim>\<open>fread\<close> delivers at most 1024 bytes of what is
  left of the source, \<^verbatim>\<open>fwrite\<close> writes them; the loop ends when nothing is delivered.
\<close>

function cp_loop :: "string \<Rightarrow> string \<Rightarrow> world \<Rightarrow> world" where
  "cp_loop src dst w =
     (let buffer = take 1024 src
      in if length buffer > 0
         then cp_loop (drop 1024 src) dst (emit (Sys_fwrite dst buffer) w)
         else w)"
  by pat_completeness auto

termination cp_loop
  by (relation "measure (\<lambda>(src, dst, w). length src)") auto

definition shell_cp :: "world \<Rightarrow> cell list \<Rightarrow> int \<times> world" where
  "shell_cp w args =
     (let usage = (1, emit (Fprintf_stderr
                      (''shell: expected source and destination for '' @ dquote ''cp'' @ nl)) w)
      in case cell args 1 of
           None \<Rightarrow> usage
         | Some src \<Rightarrow>
             (case cell args 2 of
                None \<Rightarrow> usage
              | Some dst \<Rightarrow>
                  (let ok1 = granted w;
                       content = bytes w (length (trace w));
                       w1 = emit (Sys_fopen src ''rb'' ok1) w
                   in if \<not> ok1 then (1, perror ''shell'' w1)
                      else
                        (let ok2 = granted w1;
                             w2 = emit (Sys_fopen dst ''wb'' ok2) w1
                         in if \<not> ok2 then (1, perror ''shell'' (emit (Sys_fclose src) w2))
                            else
                              (let w3 = cp_loop content dst w2;
                                   w4 = emit (Sys_fclose src) w3;
                                   w5 = emit (Sys_fclose dst) w4
                               in (1, w5))))))"

definition shell_mv :: "world \<Rightarrow> cell list \<Rightarrow> int \<times> world" where
  "shell_mv w args =
     (let usage = (1, emit (Fprintf_stderr
                      (''shell: expected source and destination for '' @ dquote ''mv'' @ nl)) w)
      in case cell args 1 of
           None \<Rightarrow> usage
         | Some old \<Rightarrow>
             (case cell args 2 of
                None \<Rightarrow> usage
              | Some new \<Rightarrow>
                  (let ok = granted w;
                       w1 = emit (Sys_rename old new ok) w
                   in (1, if ok then w1 else perror ''shell'' w1))))"

definition shell_rm :: "world \<Rightarrow> cell list \<Rightarrow> int \<times> world" where
  "shell_rm w args =
     (case cell args 1 of
        None \<Rightarrow> (1, emit (Fprintf_stderr (''shell: expected argument to '' @ dquote ''rm'' @ nl)) w)
      | Some path \<Rightarrow>
          (let ok = granted w;
               w1 = emit (Sys_remove path ok) w
           in (1, if ok then w1 else perror ''shell'' w1)))"

definition builtin_func :: "(world \<Rightarrow> cell list \<Rightarrow> int \<times> world) list" where
  "builtin_func = [shell_cd, shell_exit, shell_help, shell_clear, shell_about,
                   shell_history, shell_count, shell_cp, shell_mv, shell_rm]"

definition shell_num_builtins :: nat where
  "shell_num_builtins = length builtin_str"

section \<open>The dispatcher (executor.c)\<close>

text \<open>
  The loop \<^verbatim>\<open>for (i = 0; i < shell_num_builtins(); i++)\<close> of \<^verbatim>\<open>execute_command\<close>, over
  the indices still to come: the handler of the first name equal to \<^verbatim>\<open>args[0]\<close>.
\<close>

fun find_builtin :: "string \<Rightarrow> nat list \<Rightarrow> (world \<Rightarrow> cell list \<Rightarrow> int \<times> world) option" where
  "find_builtin a0 [] = None"
| "find_builtin a0 (i # is) =
     (if a0 = builtin_str ! i then Some (builtin_func ! i) else find_builtin a0 is)"

definition execute_command :: "world \<Rightarrow> cell list \<Rightarrow> int \<times> world" where
  "execute_command w args =
     (let (saved_stdin, w1) = sys_dup w 0;
          (saved_stdout, w2) = sys_dup w1 1
      in case cell args 0 of
           None \<Rightarrow> (1, w2)
         | Some a0 \<Rightarrow>
             (let num_pipes = count_pipes args
              in if num_pipes > 0 then
                   (let (args', offs) = split_pipes args 0
                    in execute_pipeline w2 args' (0 # offs) (num_pipes + 1))
                 else
                   (case find_builtin a0 [0..<shell_num_builtins] of
                      Some handler \<Rightarrow> handler w2 args
                    | None \<Rightarrow>
                        (let (w3, args', in_fd, out_fd) = handle_redirection w2 args (- 1) (- 1);
                             w4 = (if in_fd \<noteq> - 1
                                   then sys_close (snd (sys_dup2 w3 in_fd 0)) in_fd
                                   else w3);
                             w5 = (if out_fd \<noteq> - 1
                                   then sys_close (snd (sys_dup2 w4 out_fd 1)) out_fd
                                   else w4);
                             (status, w6) = launch_process w5 args';
                             w7 = snd (sys_dup2 w6 saved_stdin 0);
                             w8 = snd (sys_dup2 w7 saved_stdout 1);
                             w9 = sys_close w8 saved_stdin;
                             w10 = sys_close w9 saved_stdout
                         in (status, w10)))))"

text \<open>
  A world for the examples: the three standard descriptors bound to the terminal, a
  limit of eight descriptors, an environment that grants every request, children that
  are never reported as stopped, empty files.
\<close>

definition tty_world :: world where
  "tty_world =
     \<lparr>fdt = [Some (Stream ''stdin''), Some (Stream ''stdout''), Some (Stream ''stderr''),
             None, None, None, None, None],
      history = [],
      grants = (\<lambda>n. True),
      stops = (\<lambda>n. 0),
      bytes = (\<lambda>n. []),
      trace = []\<rparr>"

section \<open>The specification's reading of the pipeline splitter\<close>

text \<open>
  For comparison with \<open>split_pipes\<close>: the stages of a token list are its parts between
  the \<^verbatim>\<open>|\<close> tokens; \<open>rejoin\<close> puts a \<^verbatim>\<open>|\<close> between consecutive stages; a token
  list has no empty stage when it does not start or end with \<^verbatim>\<open>|\<close> and no \<^verbatim>\<open>|\<close>
  follows another directly.
\<close>

fun chunks :: "string list \<Rightarrow> string list list" where
  "chunks [] = [[]]"
| "chunks (t # ts) =
     (if t = ''|'' then [] # chunks ts
      else (case chunks ts of [] \<Rightarrow> [[t]] | c # cs \<Rightarrow> (t # c) # cs))"

fun rejoin :: "string list list \<Rightarrow> string list" where
  "rejoin [] = []"
| "rejoin [s] = s"
| "rejoin (s # s' # ss) = s @ ''|'' # rejoin (s' # ss)"

fun no_empty_stage :: "string list \<Rightarrow> bool" where
  "no_empty_stage [] = False"
| "no_empty_stage [t] = (t \<noteq> ''|'')"
| "no_empty_stage (t # u # ts) =
     (t \<noteq> ''|'' \<and> (if u = ''|'' then no_empty_stage ts else no_empty_stage (u # ts)))"

section \<open>Reading traces and tables\<close>

text \<open>
  Notions used to state what the executor does: the events a run appends to the trace,
  the \<^verbatim>\<open>open\<close> calls and the programs executed among them, and a descriptor table
  that keeps every binding of another. \<open>is_redir\<close> recognises the two operators.
  \<open>redirections\<close> lists, for a token list, each operator's file (the token behind it,
  or NULL at the end) and mode, from left to right. \<open>strip_redirections\<close> is the
  specification's reading of the resolver: each operator is removed together with the
  token that follows it, and every other token is kept.
\<close>

definition is_redir :: "string \<Rightarrow> bool" where
  "is_redir t = (t = ''>'' \<or> t = ''<'')"

fun strip_redirections :: "string list \<Rightarrow> string list" where
  "strip_redirections [] = []"
| "strip_redirections (t # ts) =
     (if is_redir t then strip_redirections (drop 1 ts) else t # strip_redirections ts)"

fun redirections :: "string list \<Rightarrow> (string option \<times> oflag) list" where
  "redirections [] = []"
| "redirections (t # ts) =
     (if t = ''>'' then (cell (map Some ts) 0, O_WRONLY_CREAT_TRUNC) # redirections ts
      else if t = ''<'' then (cell (map Some ts) 0, O_RDONLY) # redirections ts
      else redirections ts)"

definition new_events :: "world \<Rightarrow> world \<Rightarrow> event list" where
  "new_events w w' = drop (length (trace w)) (trace w')"

fun opens_of :: "event list \<Rightarrow> (string option \<times> oflag \<times> int) list" where
  "opens_of [] = []"
| "opens_of (e # es) =
     (case e of Sys_open p f r \<Rightarrow> (p, f, r) # opens_of es | _ \<Rightarrow> opens_of es)"

definition extends :: "ofile option list \<Rightarrow> ofile option list \<Rightarrow> bool" where
  "extends T T' = (length T' = length T \<and> (\<forall>n<length T. T ! n \<noteq> None \<longrightarrow> T' ! n = T ! n))"

definition results_for :: "oflag \<Rightarrow> (string option \<times> oflag \<times> int) list \<Rightarrow> int list" where
  "results_for flags ops = map (\<lambda>(p, f, r). r) (filter (\<lambda>(p, f, r). f = flags) ops)"

fun execs_of :: "event list \<Rightarrow> string list list" where
  "execs_of [] = []"
| "execs_of (e # es) =
     (case e of Child_exec p argv i ofd ok \<Rightarrow> argv # execs_of es | _ \<Rightarrow> execs_of es)"

text \<open>
  What \<^verbatim>\<open>dup2\<close> and \<^verbatim>\<open>close\<close> do to the descriptor table alone; \<open>fresh T T' fd\<close>: the
  descriptor \<open>fd\<close> is free in \<open>T\<close> and bound in \<open>T'\<close>; \<open>forks_of\<close>: the results of the
  \<^verbatim>\<open>fork\<close> calls of a trace, in order.
\<close>

definition tdup2 :: "ofile option list \<Rightarrow> int \<Rightarrow> int \<Rightarrow> ofile option list" where
  "tdup2 T oldfd newfd =
     (if \<not> fd_open T oldfd \<or> newfd < 0 \<or> nat newfd \<ge> length T then T
      else T[nat newfd := T ! nat oldfd])"

definition tclose :: "ofile option list \<Rightarrow> int \<Rightarrow> ofile option list" where
  "tclose T fd = (if fd_open T fd then T[nat fd := None] else T)"

definition fresh :: "ofile option list \<Rightarrow> ofile option list \<Rightarrow> int \<Rightarrow> bool" where
  "fresh T T' fd = (0 \<le> fd \<and> nat fd < length T \<and> T ! nat fd = None \<and> T' ! nat fd \<noteq> None)"

fun forks_of :: "event list \<Rightarrow> bool list" where
  "forks_of [] = []"
| "forks_of (e # es) = (case e of Sys_fork ok \<Rightarrow> ok # forks_of es | _ \<Rightarrow> forks_of es)"

section \<open>The tokenizer splits on runs of delimiters\<close>

lemma fields_token_end: "\<forall>c\<in>set t. \<not> is_delim c \<Longrightarrow> delim_fields t = [t]"
  by (induction t) (auto split: list.splits)

lemma fields_token_delim:
  "\<forall>c\<in>set t. \<not> is_delim c \<Longrightarrow> is_delim d \<Longrightarrow> delim_fields (t @ d # r) = t # delim_fields r"
  by (induction t) (auto split: list.splits)

lemma spec_tokens_Nil: "spec_tokens [] = []"
  by (simp add: spec_tokens_def)

lemma spec_tokens_skip: "\<forall>c\<in>set ds. is_delim c \<Longrightarrow> spec_tokens (ds @ s) = spec_tokens s"
  by (induction ds) (auto simp: spec_tokens_def)

lemma spec_tokens_dropWhile: "spec_tokens (dropWhile is_delim s) = spec_tokens s"
  by (induction s) (auto simp: spec_tokens_def)

lemma spec_tokens_token_end:
  "t \<noteq> [] \<Longrightarrow> \<forall>c\<in>set t. \<not> is_delim c \<Longrightarrow> spec_tokens t = [t]"
  by (simp add: spec_tokens_def fields_token_end)

lemma spec_tokens_token_delim:
  "t \<noteq> [] \<Longrightarrow> \<forall>c\<in>set t. \<not> is_delim c \<Longrightarrow> is_delim d \<Longrightarrow>
   spec_tokens (t @ d # r) = t # spec_tokens r"
  by (simp add: spec_tokens_def fields_token_delim)

lemma spec_tokens_token_run:
  assumes "t \<noteq> []" and "\<forall>c\<in>set t. \<not> is_delim c" and "ds \<noteq> []" and "\<forall>c\<in>set ds. is_delim c"
  shows "spec_tokens (t @ ds @ r) = t # spec_tokens r"
proof -
  obtain d ds' where ds: "ds = d # ds'" using assms(3) by (cases ds) auto
  have "spec_tokens (t @ d # (ds' @ r)) = t # spec_tokens (ds' @ r)"
    using assms ds by (intro spec_tokens_token_delim) auto
  moreover have "spec_tokens (ds' @ r) = spec_tokens r"
    using assms(4) ds by (intro spec_tokens_skip) auto
  ultimately show ?thesis by (simp add: ds)
qed

lemma spec_tokens_all_delim: "\<forall>c\<in>set s. is_delim c \<Longrightarrow> spec_tokens s = []"
  by (induction s) (auto simp: spec_tokens_def)

lemma strtok_None: "strtok s = None \<Longrightarrow> spec_tokens s = []"
proof -
  assume "strtok s = None"
  then have "dropWhile is_delim s = []"
    by (auto simp: strtok_def Let_def split: if_splits)
  then have "\<forall>c\<in>set s. is_delim c"
    by simp
  then show ?thesis by (rule spec_tokens_all_delim)
qed

lemma strtok_Some:
  assumes "strtok s = Some (t, r)"
  shows "spec_tokens s = t # spec_tokens r"
proof -
  define s1 where "s1 = dropWhile is_delim s"
  define s2 where "s2 = dropWhile (\<lambda>c. \<not> is_delim c) s1"
  from assms have ne: "s1 \<noteq> []" and t: "t = takeWhile (\<lambda>c. \<not> is_delim c) s1"
    and r: "r = drop 1 s2"
    by (auto simp: strtok_def Let_def s1_def s2_def split: if_splits)
  have hd: "\<not> is_delim (hd s1)"
    using ne unfolding s1_def by (metis hd_dropWhile)
  have tne: "t \<noteq> []" using ne hd unfolding t by (cases s1) auto
  have tfree: "\<forall>c\<in>set t. \<not> is_delim c" unfolding t by (auto dest: set_takeWhileD)
  have split: "s1 = t @ s2" unfolding t s2_def by simp
  have "spec_tokens s1 = t # spec_tokens r"
  proof (cases s2)
    case Nil
    then show ?thesis using split tne tfree r
      by (simp add: spec_tokens_token_end spec_tokens_Nil)
  next
    case (Cons d r')
    then have "is_delim d" unfolding s2_def by (metis hd_dropWhile list.sel(1) list.distinct(1))
    then show ?thesis using split Cons tne tfree r by (simp add: spec_tokens_token_delim)
  qed
  then show ?thesis by (simp add: s1_def spec_tokens_dropWhile)
qed

lemma parse_loop_spec:
  "\<forall>n. alloc n \<Longrightarrow> parse_loop alloc acc b (strtok s) = Some (acc @ spec_tokens s)"
proof (induction s arbitrary: acc b rule: length_induct)
  case (1 s)
  show ?case
  proof (cases "strtok s")
    case None
    then show ?thesis by (simp add: strtok_None)
  next
    case (Some p)
    obtain t r where p: "p = (t, r)" by (cases p)
    have len: "length r < length s" using Some p by (auto dest: strtok_shorter)
    have ih: "\<And>acc b. parse_loop alloc acc b (strtok r) = Some (acc @ spec_tokens r)"
      using 1 len by blast
    have a: "alloc (b + MAX_ARGS)" using 1(2) by simp
    show ?thesis using Some p a ih by (simp add: Let_def strtok_Some)
  qed
qed

lemma parse_input_spec: "\<forall>n. alloc n \<Longrightarrow> parse_input alloc line = Some (spec_tokens (c_string line))"
  by (simp add: parse_input_def parse_loop_spec)

lemma fields_delim_free: "\<forall>f\<in>set (delim_fields s). \<forall>c\<in>set f. \<not> is_delim c"
  by (induction s) (auto split: list.splits)

lemma concat_fields: "concat (delim_fields s) = filter (\<lambda>c. \<not> is_delim c) s"
  by (induction s) (auto split: list.splits)

lemma concat_filter_nonempty: "concat (filter (\<lambda>t. t \<noteq> []) xs) = concat xs"
  by (induction xs) auto

lemma is_delim_not_NUL: "is_delim c \<Longrightarrow> c \<noteq> CHR 0x00"
  by (auto simp: is_delim_def DELIMITERS_def)

lemma c_string_id: "\<forall>c\<in>set s. c \<noteq> CHR 0x00 \<Longrightarrow> c_string s = s"
  by (simp add: c_string_def)

text \<open>
  C7. The delimiters are space, tab, carriage return, newline and bell. With an
  allocator that grants the buffer, \<open>parse_input\<close> returns; the tokens are
  the non-empty fields between delimiters of the line (up to its first NUL), in order:
  each token is non-empty and holds no delimiter, the tokens together are the line
  without its delimiters, a line of delimiters only (the empty line too) gives no
  token, and \<open>ls\<close>, \<open>-la\<close>, \<open>/tmp\<close> separated by any two non-empty runs of delimiters
  give the three tokens.
\<close>

theorem parse_input_splits_on_delimiter_runs:
  assumes "\<forall>n. alloc n"
  shows "(\<forall>c. is_delim c = (c = CHR '' '' \<or> c = CHR 0x09 \<or> c = CHR 0x0D \<or> c = CHR 0x0A \<or> c = CHR 0x07))
       \<and> (\<exists>ts. parse_input alloc line = Some ts
           \<and> ts = spec_tokens (c_string line)
           \<and> (\<forall>t\<in>set ts. t \<noteq> [] \<and> (\<forall>c\<in>set t. \<not> is_delim c))
           \<and> concat ts = filter (\<lambda>c. \<not> is_delim c) (c_string line)
           \<and> ((\<forall>c\<in>set line. is_delim c) \<longrightarrow> ts = [])
           \<and> (\<forall>d1 d2. d1 \<noteq> [] \<and> d2 \<noteq> [] \<and> (\<forall>c\<in>set (d1 @ d2). is_delim c) \<longrightarrow>
                 parse_input alloc (''ls'' @ d1 @ ''-la'' @ d2 @ ''/tmp'')
                   = Some [''ls'', ''-la'', ''/tmp'']))"
proof -
  let ?ts = "spec_tokens (c_string line)"
  have p: "parse_input alloc line = Some ?ts"
    using assms by (rule parse_input_spec)
  have nonempty: "\<forall>t\<in>set ?ts. t \<noteq> [] \<and> (\<forall>c\<in>set t. \<not> is_delim c)"
    using fields_delim_free by (auto simp: spec_tokens_def)
  have cat: "concat ?ts = filter (\<lambda>c. \<not> is_delim c) (c_string line)"
    by (simp add: spec_tokens_def concat_filter_nonempty concat_fields)
  have blank: "(\<forall>c\<in>set line. is_delim c) \<longrightarrow> ?ts = []"
  proof
    assume "\<forall>c\<in>set line. is_delim c"
    then have "\<forall>c\<in>set (c_string line). is_delim c"
      by (auto simp: c_string_def dest: set_takeWhileD)
    then show "?ts = []" by (rule spec_tokens_all_delim)
  qed
  have ex: "parse_input alloc (''ls'' @ d1 @ ''-la'' @ d2 @ ''/tmp'') = Some [''ls'', ''-la'', ''/tmp'']"
    if d: "d1 \<noteq> [] \<and> d2 \<noteq> [] \<and> (\<forall>c\<in>set (d1 @ d2). is_delim c)" for d1 d2
  proof -
    let ?l = "''ls'' @ d1 @ ''-la'' @ d2 @ ''/tmp''"
    have "\<forall>c\<in>set ?l. c \<noteq> CHR 0x00"
      using d by (auto dest: is_delim_not_NUL)
    then have c: "c_string ?l = ?l" by (rule c_string_id)
    have t1: "\<forall>c\<in>set ''ls''. \<not> is_delim c" and t2: "\<forall>c\<in>set ''-la''. \<not> is_delim c"
      and t3: "\<forall>c\<in>set ''/tmp''. \<not> is_delim c"
      by (simp_all add: is_delim_def DELIMITERS_def)
    have "spec_tokens ''/tmp'' = [''/tmp'']"
      using t3 by (intro spec_tokens_token_end) simp_all
    then have "spec_tokens (''-la'' @ d2 @ ''/tmp'') = [''-la'', ''/tmp'']"
      using spec_tokens_token_run [of "''-la''" d2 "''/tmp''"] t2 d by simp
    then have "spec_tokens ?l = [''ls'', ''-la'', ''/tmp'']"
      using spec_tokens_token_run [of "''ls''" d1 "''-la'' @ d2 @ ''/tmp''"] t1 d by simp
    then show ?thesis
      using parse_input_spec [OF assms, of ?l] c by simp
  qed
  have delims: "\<forall>c. is_delim c = (c = CHR '' '' \<or> c = CHR 0x09 \<or> c = CHR 0x0D \<or> c = CHR 0x0A \<or> c = CHR 0x07)"
    by (auto simp: is_delim_def DELIMITERS_def)
  have "\<exists>ts. parse_input alloc line = Some ts
           \<and> ts = spec_tokens (c_string line)
           \<and> (\<forall>t\<in>set ts. t \<noteq> [] \<and> (\<forall>c\<in>set t. \<not> is_delim c))
           \<and> concat ts = filter (\<lambda>c. \<not> is_delim c) (c_string line)
           \<and> ((\<forall>c\<in>set line. is_delim c) \<longrightarrow> ts = [])
           \<and> (\<forall>d1 d2. d1 \<noteq> [] \<and> d2 \<noteq> [] \<and> (\<forall>c\<in>set (d1 @ d2). is_delim c) \<longrightarrow>
                 parse_input alloc (''ls'' @ d1 @ ''-la'' @ d2 @ ''/tmp'')
                   = Some [''ls'', ''-la'', ''/tmp''])"
    using p nonempty cat blank ex by blast
  then show ?thesis using delims by blast
qed

theorem parse_input_splits_on_delimiter_runs_witness:
  "(\<forall>n. (\<lambda>n. True) n)
   \<and> parse_input (\<lambda>n. True) (''ls  -la   /tmp'' @ [CHR 0x0A]) = Some [''ls'', ''-la'', ''/tmp'']
   \<and> parse_input (\<lambda>n. True) [CHR '' '', CHR 0x09, CHR 0x0A] = Some []"
  using parse_input_splits_on_delimiter_runs [of "\<lambda>n. True" "''ls  -la   /tmp'' @ [CHR 0x0A]"]
        parse_input_splits_on_delimiter_runs [of "\<lambda>n. True" "[CHR '' '', CHR 0x09, CHR 0x0A]"]
  by (simp add: spec_tokens_def c_string_def is_delim_def DELIMITERS_def)

section \<open>The pipeline split\<close>

lemma chunks_not_Nil: "chunks ts \<noteq> []"
  by (induction ts) (auto split: list.splits)

lemma split_pipes_offsets:
  "split_pipes (map Some toks) i = (args', offs) \<Longrightarrow> (\<forall>off\<in>set offs. i < off) \<and> length args' = length toks"
proof (induction toks arbitrary: i args' offs)
  case Nil
  then show ?case by simp
next
  case (Cons t ts)
  obtain r o' where r: "split_pipes (map Some ts) (i + 1) = (r, o')"
    by (cases "split_pipes (map Some ts) (i + 1)")
  from Cons.IH [OF r] have "\<forall>off\<in>set o'. i + 1 < off" and "length r = length ts" by auto
  then show ?case using Cons.prems r by (auto split: if_splits intro: Suc_lessD)
qed

lemma split_pipes_chunks:
  "split_pipes (map Some toks) i = (args', offs) \<Longrightarrow>
   map (\<lambda>off. argv_of (drop (off - i) args')) (i # offs) = chunks toks"
proof (induction toks arbitrary: i args' offs)
  case Nil
  then show ?case by simp
next
  case (Cons t ts)
  obtain r o' where r: "split_pipes (map Some ts) (i + 1) = (r, o')"
    by (cases "split_pipes (map Some ts) (i + 1)")
  have ih: "map (\<lambda>off. argv_of (drop (off - (i + 1)) r)) ((i + 1) # o') = chunks ts"
    using Cons.IH [OF r] .
  have gt: "\<forall>off\<in>set o'. i + 1 < off"
    using split_pipes_offsets [OF r] by simp
  have shift: "map (\<lambda>off. argv_of (drop (off - i) (x # r))) o' = map (\<lambda>off. argv_of (drop (off - (i + 1)) r)) o'" for x
  proof (rule map_cong [OF refl])
    fix off assume "off \<in> set o'"
    then have "i + 1 < off" using gt by simp
    then have "off - i = Suc (off - (i + 1))" by simp
    then show "argv_of (drop (off - i) (x # r)) = argv_of (drop (off - (i + 1)) r)" by simp
  qed
  show ?case
  proof (cases "t = ''|''")
    case True
    then have "args' = None # r" "offs = (i + 1) # o'" using Cons.prems r by auto
    then show ?thesis using True ih by (simp add: shift)
  next
    case False
    then have a: "args' = Some t # r" "offs = o'" using Cons.prems r by auto
    obtain c cs where c: "chunks ts = c # cs" using chunks_not_Nil by (cases "chunks ts") auto
    show ?thesis using False a ih c by (simp add: shift)
  qed
qed

lemma length_chunks: "length (chunks toks) = count_list toks ''|'' + 1"
  by (induction toks) (auto split: list.splits simp: chunks_not_Nil)

lemma count_pipes_tokens: "count_pipes (map Some toks) = count_list toks ''|''"
  by (induction toks) auto

lemma chunks_no_pipe: "\<forall>c\<in>set (chunks toks). ''|'' \<notin> set c"
  by (induction toks) (auto split: list.splits)

lemma rejoin_Cons: "rejoin ((t # c) # cs) = t # rejoin (c # cs)"
  by (cases cs) auto

lemma rejoin_chunks: "rejoin (chunks toks) = toks"
proof (induction toks)
  case Nil
  then show ?case by simp
next
  case (Cons t ts)
  obtain c cs where c: "chunks ts = c # cs" using chunks_not_Nil by (cases "chunks ts") auto
  show ?case using Cons c by (simp add: rejoin_Cons)
qed

lemma chunks_nonempty: "no_empty_stage toks \<Longrightarrow> \<forall>c\<in>set (chunks toks). c \<noteq> []"
  by (induction toks rule: no_empty_stage.induct) (auto split: list.splits if_splits)

text \<open>
  The arrays handed to \<open>execute_pipeline\<close> by \<open>execute_command\<close> have the sizes the
  indexing in \<open>child_stage\<close> relies on: one offset per stage, two descriptors per pipe.
\<close>

lemma split_pipes_count: "split_pipes args i = (args', offs) \<Longrightarrow> length offs = count_pipes args"
proof (induction args i arbitrary: args' offs rule: split_pipes.induct)
  case (1 i)
  then show ?case by simp
next
  case (2 rest i)
  then show ?case by auto
next
  case (3 t rest i)
  obtain r o' where r: "split_pipes rest (i + 1) = (r, o')"
    by (cases "split_pipes rest (i + 1)")
  have "length o' = count_pipes rest" using 3(1) [OF r] .
  then show ?case using 3(2) r by (auto split: if_splits)
qed

lemma make_pipes_length: "make_pipes k w = (Some fds, w') \<Longrightarrow> length fds = 2 * k"
proof (induction k arbitrary: w fds w')
  case 0
  then show ?case by simp
next
  case (Suc k)
  obtain p w1 where p: "sys_pipe w = (p, w1)" by (cases "sys_pipe w")
  obtain r w2 where rec: "make_pipes k w1 = (r, w2)" by (cases "make_pipes k w1")
  obtain rd wr where rw: "p = Some (rd, wr)"
    using Suc.prems p by (cases p) auto
  obtain fds' where f: "r = Some fds'" "fds = rd # wr # fds'"
    using Suc.prems p rw rec by (cases r) auto
  have "length fds' = 2 * k" using Suc.IH rec f(1) by simp
  then show ?case using f(2) by simp
qed

text \<open>
  C5. For a token list with no empty stage, the split made by \<open>execute_command\<close>
  (the array after the loop, and the offsets stored in \<^verbatim>\<open>cmd_args\<close>) gives one stage
  more than there are \<^verbatim>\<open>|\<close> tokens, every stage as \<^verbatim>\<open>execvp\<close> reads it is
  non-empty and holds no \<^verbatim>\<open>|\<close>, and the stages rejoined with \<^verbatim>\<open>|\<close> are the
  token list.
\<close>

theorem split_pipes_round_trip:
  assumes "no_empty_stage toks"
    and "split_pipes (map Some toks) 0 = (args', offs)"
  shows "length (0 # offs) = count_pipes (map Some toks) + 1
         \<and> count_pipes (map Some toks) = count_list toks ''|''
         \<and> (\<forall>off\<in>set (0 # offs). argv_of (drop off args') \<noteq> [] \<and> ''|'' \<notin> set (argv_of (drop off args')))
         \<and> rejoin (map (\<lambda>off. argv_of (drop off args')) (0 # offs)) = toks"
proof -
  have c: "map (\<lambda>off. argv_of (drop off args')) (0 # offs) = chunks toks"
    using split_pipes_chunks [OF assms(2)] by simp
  have len: "length (0 # offs) = length (chunks toks)"
    using arg_cong [OF c, of length] by simp
  have each: "\<forall>off\<in>set (0 # offs). argv_of (drop off args') \<in> set (chunks toks)"
    using arg_cong [OF c, of set] by auto
  show ?thesis
    using c len each chunks_nonempty [OF assms(1)] chunks_no_pipe [of toks]
    by (simp add: length_chunks count_pipes_tokens rejoin_chunks)
qed

theorem split_pipes_round_trip_witness:
  "no_empty_stage [''ls'', ''-l'', ''|'', ''grep'', ''c'', ''|'', ''wc'']
   \<and> split_pipes (map Some [''ls'', ''-l'', ''|'', ''grep'', ''c'', ''|'', ''wc'']) 0
       = ([Some ''ls'', Some ''-l'', None, Some ''grep'', Some ''c'', None, Some ''wc''], [3, 6])
   \<and> rejoin [[''ls'', ''-l''], [''grep'', ''c''], [''wc'']] = [''ls'', ''-l'', ''|'', ''grep'', ''c'', ''|'', ''wc'']"
  using split_pipes_round_trip [of "[''ls'', ''-l'', ''|'', ''grep'', ''c'', ''|'', ''wc'']"
     "[Some ''ls'', Some ''-l'', None, Some ''grep'', Some ''c'', None, Some ''wc'']" "[3, 6]"]
  by simp

section \<open>The continuation signal\<close>

lemma builtin_indices: "[0..<shell_num_builtins] = [0, 1, 2, 3, 4, 5, 6, 7, 8, 9]"
  by (simp add: shell_num_builtins_def builtin_str_def upt_rec)

lemma launch_process_status: "fst (launch_process w args) = 1"
  by (simp add: launch_process_def Let_def)

lemma execute_pipeline_status: "fst (execute_pipeline w args cmd_args num_cmds) = 1"
  by (simp add: execute_pipeline_def split: prod.splits option.splits bool.splits)

lemma shell_cd_status: "fst (shell_cd w args) = 1"
  by (simp add: shell_cd_def Let_def split: option.splits)

lemma shell_exit_status: "fst (shell_exit w args) = 0"
  by (simp add: shell_exit_def)

lemma shell_help_status: "fst (shell_help w args) = 1"
  by (simp add: shell_help_def Let_def)

lemma shell_clear_status: "fst (shell_clear w args) = 1"
  by (simp add: shell_clear_def)

lemma shell_about_status: "fst (shell_about w args) = 1"
  by (simp add: shell_about_def Let_def)

lemma shell_history_status: "fst (shell_history w args) = 1"
  by (simp add: shell_history_def)

lemma shell_count_status: "fst (shell_count w args) = 1"
  by (simp add: shell_count_def Let_def split: option.splits prod.splits)

lemma shell_cp_status: "fst (shell_cp w args) = 1"
  by (simp add: shell_cp_def Let_def split: option.splits)

lemma shell_mv_status: "fst (shell_mv w args) = 1"
  by (simp add: shell_mv_def Let_def split: option.splits)

lemma shell_rm_status: "fst (shell_rm w args) = 1"
  by (simp add: shell_rm_def Let_def split: option.splits)

lemmas builtin_status = shell_cd_status shell_exit_status shell_help_status shell_clear_status
  shell_about_status shell_history_status shell_count_status shell_cp_status shell_mv_status
  shell_rm_status

lemma find_builtin_status:
  "find_builtin a0 [0..<shell_num_builtins] = Some handler \<Longrightarrow>
   fst (handler w args) = (if a0 = ''exit'' then 0 else 1)"
  by (auto simp: builtin_indices builtin_str_def builtin_func_def builtin_status split: if_splits)

lemma find_builtin_exit: "find_builtin ''exit'' [0..<shell_num_builtins] = Some shell_exit"
  by (simp add: builtin_indices builtin_str_def builtin_func_def)

lemma find_builtin_names:
  "(find_builtin a0 [0..<shell_num_builtins] \<noteq> None) = (a0 \<in> set builtin_str)"
  by (simp add: builtin_indices builtin_str_def builtin_func_def)

text \<open>
  C6. \<open>execute_command\<close> returns 0 exactly when \<^verbatim>\<open>args[0]\<close> is \<^verbatim>\<open>exit\<close> and no cell
  in front of the first NULL is \<^verbatim>\<open>|\<close>, and 1 in every other case (empty line, the other
  built-ins, pipelines, external programs, whatever the environment answers);
  \<open>launch_process\<close> and \<open>execute_pipeline\<close> always return 1.
\<close>

theorem execute_command_status:
  "fst (execute_command w args) = (if cell args 0 = Some ''exit'' \<and> count_pipes args = 0 then 0 else 1)
   \<and> fst (launch_process w args) = 1
   \<and> fst (execute_pipeline w args cmd_args num_cmds) = 1"
proof -
  obtain s1 w1 where d1: "sys_dup w 0 = (s1, w1)" by (cases "sys_dup w 0")
  obtain s2 w2 where d2: "sys_dup w1 1 = (s2, w2)" by (cases "sys_dup w1 1")
  have "fst (execute_command w args) = (if cell args 0 = Some ''exit'' \<and> count_pipes args = 0 then 0 else 1)"
  proof (cases "cell args 0")
    case None
    then show ?thesis by (simp add: execute_command_def d1 d2)
  next
    case (Some a0)
    show ?thesis
    proof (cases "count_pipes args > 0")
      case True
      then show ?thesis using Some
        by (simp add: execute_command_def d1 d2 case_prod_beta execute_pipeline_status)
    next
      case False
      show ?thesis
      proof (cases "find_builtin a0 [0..<shell_num_builtins]")
        case None
        then have "a0 \<noteq> ''exit''" using find_builtin_exit by auto
        then show ?thesis using Some False None
          by (simp add: execute_command_def d1 d2 Let_def case_prod_beta launch_process_status)
      next
        case (Some handler)
        then show ?thesis using \<open>cell args 0 = Some a0\<close> False find_builtin_status [OF Some, of w2 args]
          by (simp add: execute_command_def d1 d2)
      qed
    qed
  qed
  then show ?thesis by (simp add: launch_process_status execute_pipeline_status)
qed

theorem execute_command_status_witness:
  "fst (execute_command tty_world [Some ''exit'']) = 0
   \<and> fst (execute_command tty_world [Some ''exit'', Some ''|'', Some ''wc'']) = 1
   \<and> fst (execute_command tty_world [Some ''help'']) = 1
   \<and> fst (execute_command (tty_world\<lparr>grants := (\<lambda>n. False)\<rparr>) [Some ''ls'']) = 1
   \<and> fst (execute_command tty_world []) = 1"
  using execute_command_status [of tty_world "[Some ''exit'']"]
        execute_command_status [of tty_world "[Some ''exit'', Some ''|'', Some ''wc'']"]
        execute_command_status [of tty_world "[Some ''help'']"]
        execute_command_status [of "tty_world\<lparr>grants := (\<lambda>n. False)\<rparr>" "[Some ''ls'']"]
        execute_command_status [of tty_world "[]"]
  by (simp add: cell_def)

section \<open>Built-ins called without a required argument\<close>

text \<open>
  C8. When \<^verbatim>\<open>args[1]\<close> is NULL, \<open>shell_cd\<close>, \<open>shell_count\<close> and \<open>shell_rm\<close> return 1 and
  leave the world as it was but for one message on the diagnostic stream; so do
  \<open>shell_cp\<close> and \<open>shell_mv\<close> when \<^verbatim>\<open>args[1]\<close> or \<^verbatim>\<open>args[2]\<close> is NULL. No
  \<^verbatim>\<open>chdir\<close>, \<^verbatim>\<open>fopen\<close>, \<^verbatim>\<open>rename\<close> or \<^verbatim>\<open>remove\<close> is recorded in the trace: the
  operation is not attempted.
\<close>

theorem builtin_missing_argument:
  "(cell args 1 = None \<longrightarrow>
      shell_cd w args
        = (1, emit (Fprintf_stderr (''shell: expected argument to '' @ dquote ''cd'' @ nl)) w)
    \<and> shell_count w args
        = (1, emit (Fprintf_stderr (''shell: expected argument to '' @ dquote ''count'' @ nl)) w)
    \<and> shell_rm w args
        = (1, emit (Fprintf_stderr (''shell: expected argument to '' @ dquote ''rm'' @ nl)) w))
   \<and> (cell args 1 = None \<or> cell args 2 = None \<longrightarrow>
      shell_cp w args
        = (1, emit (Fprintf_stderr
                 (''shell: expected source and destination for '' @ dquote ''cp'' @ nl)) w)
    \<and> shell_mv w args
        = (1, emit (Fprintf_stderr
                 (''shell: expected source and destination for '' @ dquote ''mv'' @ nl)) w))"
  by (auto simp: shell_cd_def shell_count_def shell_rm_def shell_cp_def shell_mv_def Let_def
           split: option.splits)

theorem builtin_missing_argument_witness:
  "cell [Some ''cp'', Some ''a.txt''] 1 = Some ''a.txt''
   \<and> cell [Some ''cp'', Some ''a.txt''] 2 = None
   \<and> shell_cp tty_world [Some ''cp'', Some ''a.txt'']
        = (1, tty_world\<lparr>trace := [Fprintf_stderr
                 (''shell: expected source and destination for '' @ dquote ''cp'' @ nl)]\<rparr>)
   \<and> cell [Some ''cd''] 1 = None
   \<and> shell_cd tty_world [Some ''cd'']
        = (1, tty_world\<lparr>trace := [Fprintf_stderr (''shell: expected argument to '' @ dquote ''cd'' @ nl)]\<rparr>)"
  using builtin_missing_argument [of "[Some ''cp'', Some ''a.txt'']" tty_world]
        builtin_missing_argument [of "[Some ''cd'']" tty_world]
  by (simp add: cell_def emit_def tty_world_def)

section \<open>Steps of the environment\<close>

subsection \<open>Primitive steps\<close>

lemma fdt_emit: "fdt (emit e w) = fdt w"
  by (simp add: emit_def)

lemma trace_emit: "trace (emit e w) = trace w @ [e]"
  by (simp add: emit_def)

lemma fdt_perror: "fdt (perror s w) = fdt w"
  by (simp add: perror_def emit_def)

lemma trace_perror: "trace (perror s w) = trace w @ [Perror s]"
  by (simp add: perror_def emit_def)

lemma lowest_free_Some: "lowest_free T = Some n \<Longrightarrow> n < length T \<and> T ! n = None"
proof (induction T arbitrary: n rule: lowest_free.induct)
  case 1
  then show ?case by simp
next
  case (2 T)
  then show ?case by simp
next
  case (3 f T)
  then show ?case by (cases "lowest_free T") auto
qed

lemma lowest_free_None: "lowest_free T = None \<Longrightarrow> n < length T \<Longrightarrow> T ! n \<noteq> None"
proof (induction T arbitrary: n rule: lowest_free.induct)
  case 1
  then show ?case by simp
next
  case (2 T)
  then show ?case by simp
next
  case (3 f T)
  then show ?case by (cases n) auto
qed

lemma extends_refl: "extends T T"
  by (simp add: extends_def)

lemma extends_trans: "extends T T' \<Longrightarrow> extends T' T'' \<Longrightarrow> extends T T''"
  by (auto simp: extends_def)

lemma extends_alloc: "n < length T \<Longrightarrow> T ! n = None \<Longrightarrow> extends T (T[n := x])"
  by (auto simp: extends_def nth_list_update)

lemma sys_open_trace: "sys_open w path flags = (fd, w1) \<Longrightarrow> trace w1 = trace w @ [Sys_open path flags fd]"
  by (auto simp: sys_open_def trace_emit emit_def split: option.splits if_splits)

lemma sys_open_fdt:
  "sys_open w path flags = (fd, w1) \<Longrightarrow>
   (fd = - 1 \<and> fdt w1 = fdt w) \<or>
   (\<exists>n p. fd = int n \<and> path = Some p \<and> lowest_free (fdt w) = Some n
          \<and> fdt w1 = (fdt w)[n := Some (File p flags)])"
  by (auto simp: sys_open_def emit_def split: option.splits if_splits)

lemma sys_open_extends: "sys_open w path flags = (fd, w1) \<Longrightarrow> extends (fdt w) (fdt w1)"
  using sys_open_fdt [of w path flags fd w1]
  by (auto simp: extends_refl dest!: lowest_free_Some intro: extends_alloc)

lemma sys_open_bound:
  "sys_open w path flags = (fd, w1) \<Longrightarrow> 0 \<le> fd \<Longrightarrow>
   \<exists>name. path = Some name \<and> bound_to (fdt w1) (nat fd) = Some (File name flags)"
  using sys_open_fdt [of w path flags fd w1]
  by (auto simp: bound_to_def dest!: lowest_free_Some)

subsection \<open>The resolver\<close>

lemma hr_array:
  "handle_redirection w (map Some toks) i0 o0 = (w', args', i', o') \<Longrightarrow>
   args' = map (\<lambda>t. if is_redir t then None else Some t) toks"
proof (induction toks arbitrary: w i0 o0 w' args' i' o')
  case Nil
  then show ?case by simp
next
  case (Cons t ts)
  show ?case
  proof (cases "t = ''>''")
    case True
    obtain fd w1 where op: "sys_open w (cell (map Some ts) 0) O_WRONLY_CREAT_TRUNC = (fd, w1)"
      by (cases "sys_open w (cell (map Some ts) 0) O_WRONLY_CREAT_TRUNC")
    define w2 where "w2 = (if fd < 0 then perror ''shell'' w1 else w1)"
    obtain w3 r i3 o3 where rec: "handle_redirection w2 (map Some ts) i0 fd = (w3, r, i3, o3)"
      by (cases "handle_redirection w2 (map Some ts) i0 fd")
    have "args' = None # r" using Cons.prems True op rec by (simp add: w2_def)
    then show ?thesis using Cons.IH [OF rec] True by (simp add: is_redir_def)
  next
    case False
    show ?thesis
    proof (cases "t = ''<''")
      case True
      obtain fd w1 where op: "sys_open w (cell (map Some ts) 0) O_RDONLY = (fd, w1)"
        by (cases "sys_open w (cell (map Some ts) 0) O_RDONLY")
      define w2 where "w2 = (if fd < 0 then perror ''shell'' w1 else w1)"
      obtain w3 r i3 o3 where rec: "handle_redirection w2 (map Some ts) fd o0 = (w3, r, i3, o3)"
        by (cases "handle_redirection w2 (map Some ts) fd o0")
      have "args' = None # r" using Cons.prems True False op rec by (simp add: w2_def)
      then show ?thesis using Cons.IH [OF rec] True by (simp add: is_redir_def)
    next
      case F2: False
      obtain w3 r i3 o3 where rec: "handle_redirection w (map Some ts) i0 o0 = (w3, r, i3, o3)"
        by (cases "handle_redirection w (map Some ts) i0 o0")
      have "args' = Some t # r" using Cons.prems False F2 rec by simp
      then show ?thesis using Cons.IH [OF rec] False F2 by (simp add: is_redir_def)
    qed
  qed
qed

lemma argv_of_cut:
  "argv_of (map (\<lambda>t. if is_redir t then None else Some t) toks) = takeWhile (\<lambda>t. \<not> is_redir t) toks"
  by (induction toks) auto


lemma hr_induct [consumes 1, case_names Nil Null Open Other]:
  assumes run: "handle_redirection w args i0 o0 = (w', args', i', o')"
    and nil: "\<And>w ifd ofd. P w [] ifd ofd w [] ifd ofd"
    and null: "\<And>w rest ifd ofd. P w (None # rest) ifd ofd w (None # rest) ifd ofd"
    and opn: "\<And>w t rest ifd ofd flags fd w1 w2 w' r i' o'.
        \<lbrakk>is_redir t; flags = (if t = ''>'' then O_WRONLY_CREAT_TRUNC else O_RDONLY);
         sys_open w (cell rest 0) flags = (fd, w1);
         w2 = (if fd < 0 then perror ''shell'' w1 else w1);
         handle_redirection w2 rest (if t = ''>'' then ifd else fd) (if t = ''>'' then fd else ofd)
           = (w', r, i', o');
         P w2 rest (if t = ''>'' then ifd else fd) (if t = ''>'' then fd else ofd) w' r i' o'\<rbrakk>
        \<Longrightarrow> P w (Some t # rest) ifd ofd w' (None # r) i' o'"
    and other: "\<And>w t rest ifd ofd w' r i' o'.
        \<lbrakk>\<not> is_redir t; handle_redirection w rest ifd ofd = (w', r, i', o'); P w rest ifd ofd w' r i' o'\<rbrakk>
        \<Longrightarrow> P w (Some t # rest) ifd ofd w' (Some t # r) i' o'"
  shows "P w args i0 o0 w' args' i' o'"
  using run
proof (induction args arbitrary: w i0 o0 w' args' i' o')
  case Nil
  then show ?case using nil by simp
next
  case (Cons c rest)
  show ?case
  proof (cases c)
    case None
    then have "w' = w \<and> args' = None # rest \<and> i' = i0 \<and> o' = o0"
      using Cons.prems by auto
    then show ?thesis using null None by simp
  next
    case (Some t)
    show ?thesis
    proof (cases "is_redir t")
      case True
      define flags where "flags = (if t = ''>'' then O_WRONLY_CREAT_TRUNC else O_RDONLY)"
      obtain fd w1 where op: "sys_open w (cell rest 0) flags = (fd, w1)"
        by (cases "sys_open w (cell rest 0) flags")
      define w2 where "w2 = (if fd < 0 then perror ''shell'' w1 else w1)"
      obtain w3 r i3 o3 where rec:
        "handle_redirection w2 rest (if t = ''>'' then i0 else fd) (if t = ''>'' then fd else o0)
           = (w3, r, i3, o3)"
        by (cases "handle_redirection w2 rest (if t = ''>'' then i0 else fd) (if t = ''>'' then fd else o0)")
      have res: "w' = w3 \<and> args' = None # r \<and> i' = i3 \<and> o' = o3"
        using Cons.prems Some True op rec
        by (auto simp: is_redir_def flags_def w2_def split: if_splits)
      have "P w2 rest (if t = ''>'' then i0 else fd) (if t = ''>'' then fd else o0) w3 r i3 o3"
        using Cons.IH [OF rec] .
      then show ?thesis using opn [OF True flags_def op w2_def rec] res Some by simp
    next
      case False
      obtain w3 r i3 o3 where rec: "handle_redirection w rest i0 o0 = (w3, r, i3, o3)"
        by (cases "handle_redirection w rest i0 o0")
      have res: "w' = w3 \<and> args' = Some t # r \<and> i' = i3 \<and> o' = o3"
        using Cons.prems Some False rec by (auto simp: is_redir_def)
      show ?thesis using other [OF False rec Cons.IH [OF rec]] res Some by simp
    qed
  qed
qed

lemma hr_extends:
  "handle_redirection w args i0 o0 = (w', args', i', o') \<Longrightarrow> extends (fdt w) (fdt w')"
proof (induction rule: hr_induct)
  case (Open w t rest ifd ofd flags fd w1 w2 w' r i' o')
  have "extends (fdt w) (fdt w2)"
    using sys_open_extends [OF Open(3)] Open(4) by (simp add: fdt_perror)
  then show ?case using Open(6) by (rule extends_trans)
qed (simp_all add: extends_refl)

lemma new_events_eq: "trace w' = trace w @ evs \<Longrightarrow> new_events w w' = evs"
  by (simp add: new_events_def)

lemma hr_prefix:
  "handle_redirection w args i0 o0 = (w', args', i', o') \<Longrightarrow>
   trace w' = trace w @ new_events w w'"
proof (induction rule: hr_induct)
  case (Open w t rest ifd ofd flags fd w1 w2 w' r i' o')
  have "\<exists>evs. trace w2 = trace w @ evs"
    using sys_open_trace [OF Open(3)] Open(4) by (simp add: trace_perror)
  then obtain evs where "trace w2 = trace w @ evs" ..
  then have e: "trace w' = trace w @ (evs @ new_events w2 w')" using Open(6) by simp
  show ?case using e new_events_eq [OF e] by simp
qed (simp_all add: new_events_def)


lemma opens_of_append: "opens_of (xs @ ys) = opens_of xs @ opens_of ys"
  by (induction xs) (auto split: event.splits)

lemma open_step:
  assumes "sys_open w path flags = (fd, w1)"
    and "w2 = (if fd < 0 then perror ''shell'' w1 else w1)"
    and "trace w' = trace w2 @ new_events w2 w'"
  shows "new_events w w'
           = Sys_open path flags fd # (if fd < 0 then [Perror ''shell''] else []) @ new_events w2 w'"
proof -
  have "trace w2 = trace w @ Sys_open path flags fd # (if fd < 0 then [Perror ''shell''] else [])"
    using sys_open_trace [OF assms(1)] assms(2) by (simp add: trace_perror)
  then have "trace w' = trace w @ (Sys_open path flags fd # (if fd < 0 then [Perror ''shell''] else [])
      @ new_events w2 w')"
    using assms(3) by simp
  then show ?thesis by (rule new_events_eq)
qed

lemma open_step_opens:
  assumes "sys_open w path flags = (fd, w1)"
    and "w2 = (if fd < 0 then perror ''shell'' w1 else w1)"
    and "trace w' = trace w2 @ new_events w2 w'"
  shows "opens_of (new_events w w') = (path, flags, fd) # opens_of (new_events w2 w')"
  by (simp add: open_step [OF assms] opens_of_append)

lemma extends_bound: "extends T T' \<Longrightarrow> bound_to T n = Some x \<Longrightarrow> bound_to T' n = Some x"
  by (auto simp: extends_def bound_to_def split: if_splits)

lemma hr_opens:
  assumes "handle_redirection w (map Some toks) i0 o0 = (w', args', i', o')"
  shows "map (\<lambda>(p, f, r). (p, f)) (opens_of (new_events w w')) = redirections toks"
proof -
  have "\<forall>toks. args = map Some toks \<longrightarrow>
          map (\<lambda>(p, f, r). (p, f)) (opens_of (new_events w w')) = redirections toks"
    if "handle_redirection w args i0 o0 = (w', args', i', o')" for args
    using that
  proof (induction rule: hr_induct)
    case (Nil w ifd ofd)
    then show ?case by (simp add: new_events_def)
  next
    case (Null w rest ifd ofd)
    then show ?case by auto
  next
    case (Open w t rest ifd ofd flags fd w1 w2 w' r i' o')
    show ?case
    proof (intro allI impI)
      fix toks assume "Some t # rest = map Some toks"
      then obtain ts where ts: "toks = t # ts" "rest = map Some ts" by (cases toks) auto
      have ih: "map (\<lambda>(p, f, r). (p, f)) (opens_of (new_events w2 w')) = redirections ts"
        using Open(6) ts by simp
      have "opens_of (new_events w w') = (cell rest 0, flags, fd) # opens_of (new_events w2 w')"
        using open_step_opens [OF Open(3) Open(4) hr_prefix [OF Open(5)]] .
      then show "map (\<lambda>(p, f, r). (p, f)) (opens_of (new_events w w')) = redirections toks"
        using ih ts Open(1) Open(2) by (auto simp: is_redir_def)
    qed
  next
    case (Other w t rest ifd ofd w' r i' o')
    show ?case
    proof (intro allI impI)
      fix toks assume "Some t # rest = map Some toks"
      then obtain ts where ts: "toks = t # ts" "rest = map Some ts" by (cases toks) auto
      then show "map (\<lambda>(p, f, r). (p, f)) (opens_of (new_events w w')) = redirections toks"
        using Other by (auto simp: is_redir_def)
    qed
  qed
  then show ?thesis using assms by blast
qed

lemma hr_last:
  "handle_redirection w args i0 o0 = (w', args', i', o') \<Longrightarrow>
   i' = last (i0 # results_for O_RDONLY (opens_of (new_events w w'))) \<and>
   o' = last (o0 # results_for O_WRONLY_CREAT_TRUNC (opens_of (new_events w w')))"
proof (induction rule: hr_induct)
  case (Open w t rest ifd ofd flags fd w1 w2 w' r i' o')
  have "opens_of (new_events w w') = (cell rest 0, flags, fd) # opens_of (new_events w2 w')"
    using open_step_opens [OF Open(3) Open(4) hr_prefix [OF Open(5)]] .
  then show ?case using Open(1,2,6) by (auto simp: results_for_def is_redir_def)
qed (simp_all add: new_events_def results_for_def)

lemma hr_bound:
  "handle_redirection w args i0 o0 = (w', args', i', o') \<Longrightarrow>
   \<forall>(p, f, r)\<in>set (opens_of (new_events w w')).
      0 \<le> r \<longrightarrow> (\<exists>name. p = Some name \<and> bound_to (fdt w') (nat r) = Some (File name f))"
proof (induction rule: hr_induct)
  case (Open w t rest ifd ofd flags fd w1 w2 w' r i' o')
  have ops: "opens_of (new_events w w') = (cell rest 0, flags, fd) # opens_of (new_events w2 w')"
    using open_step_opens [OF Open(3) Open(4) hr_prefix [OF Open(5)]] .
  have "\<exists>name. cell rest 0 = Some name \<and> bound_to (fdt w') (nat fd) = Some (File name flags)"
    if pos: "0 \<le> fd"
  proof -
    obtain name where n: "cell rest 0 = Some name"
      "bound_to (fdt w1) (nat fd) = Some (File name flags)"
      using sys_open_bound [OF Open(3) pos] by auto
    have "fdt w2 = fdt w1" using Open(4) by (simp add: fdt_perror)
    then have "bound_to (fdt w') (nat fd) = Some (File name flags)"
      using extends_bound [OF hr_extends [OF Open(5)]] n(2) by simp
    then show ?thesis using n(1) by simp
  qed
  then show ?case using ops Open(6) by simp
qed (simp_all add: new_events_def)


lemma hr_events:
  "handle_redirection w args i0 o0 = (w', args', i', o') \<Longrightarrow>
   \<forall>ev\<in>set (new_events w w'). ev = Perror ''shell'' \<or> (\<exists>p f r. ev = Sys_open p f r)"
proof (induction rule: hr_induct)
  case (Open w t rest ifd ofd flags fd w1 w2 w' r i' o')
  show ?case
    using open_step [OF Open(3) Open(4) hr_prefix [OF Open(5)]] Open(6) by auto
qed (simp_all add: new_events_def)

section \<open>Repeated redirection operators\<close>

text \<open>
  C10. Every operator of the argument list is resolved: the \<^verbatim>\<open>open\<close> calls of
  \<open>handle_redirection\<close> are, in order, those of the operators from left to right, each
  with its mode (\<^verbatim>\<open>>\<close> creates or truncates). What is left in \<^verbatim>\<open>*in_fd\<close> and
  \<^verbatim>\<open>*out_fd\<close> is the result of the last \<^verbatim>\<open><\<close> and of the last \<^verbatim>\<open>>\<close> (the value
  passed in when there is none). Every descriptor an \<^verbatim>\<open>open\<close> returned is still bound
  to its file when the resolver returns: none is closed.
\<close>

theorem handle_redirection_repeated_operators:
  assumes "handle_redirection w (map Some toks) in_fd out_fd = (w', args', in_fd', out_fd')"
  shows "map (\<lambda>(p, f, r). (p, f)) (opens_of (new_events w w')) = redirections toks
       \<and> in_fd' = last (in_fd # results_for O_RDONLY (opens_of (new_events w w')))
       \<and> out_fd' = last (out_fd # results_for O_WRONLY_CREAT_TRUNC (opens_of (new_events w w')))
       \<and> (\<forall>(p, f, r)\<in>set (opens_of (new_events w w')).
             0 \<le> r \<longrightarrow> (\<exists>name. p = Some name \<and> bound_to (fdt w') (nat r) = Some (File name f)))"
  using hr_opens [OF assms] hr_last [OF assms] hr_bound [OF assms] by simp

theorem handle_redirection_repeated_operators_witness:
  "handle_redirection tty_world (map Some [''cat'', ''>'', ''a'', ''>'', ''b'']) (- 1) (- 1)
     = (tty_world\<lparr>fdt := (fdt tty_world)[3 := Some (File ''a'' O_WRONLY_CREAT_TRUNC),
                                           4 := Some (File ''b'' O_WRONLY_CREAT_TRUNC)],
                  trace := [Sys_open (Some ''a'') O_WRONLY_CREAT_TRUNC 3,
                            Sys_open (Some ''b'') O_WRONLY_CREAT_TRUNC 4]\<rparr>,
        [Some ''cat'', None, Some ''a'', None, Some ''b''], - 1, 4)
   \<and> redirections [''cat'', ''>'', ''a'', ''>'', ''b'']
       = [(Some ''a'', O_WRONLY_CREAT_TRUNC), (Some ''b'', O_WRONLY_CREAT_TRUNC)]
   \<and> bound_to ((fdt tty_world)[3 := Some (File ''a'' O_WRONLY_CREAT_TRUNC),
                                  4 := Some (File ''b'' O_WRONLY_CREAT_TRUNC)]) 3
       = Some (File ''a'' O_WRONLY_CREAT_TRUNC)
   \<and> new_events tty_world
         (snd (execute_command tty_world (map Some [''cat'', ''>'', ''a'', ''>'', ''b''])))
       = [Sys_open (Some ''a'') O_WRONLY_CREAT_TRUNC 5, Sys_open (Some ''b'') O_WRONLY_CREAT_TRUNC 6,
          Sys_fork True,
          Child_exec (Some ''cat'') [''cat''] (Some (Stream ''stdin''))
            (Some (File ''b'' O_WRONLY_CREAT_TRUNC)) True,
          Sys_waitpid True]
   \<and> bound_to (fdt (snd (execute_command tty_world (map Some [''cat'', ''>'', ''a'', ''>'', ''b''])))) 5
       = Some (File ''a'' O_WRONLY_CREAT_TRUNC)"
proof -
  have resolver:
    "handle_redirection tty_world (map Some [''cat'', ''>'', ''a'', ''>'', ''b'']) (- 1) (- 1)
       = (tty_world\<lparr>fdt := (fdt tty_world)[3 := Some (File ''a'' O_WRONLY_CREAT_TRUNC),
                                             4 := Some (File ''b'' O_WRONLY_CREAT_TRUNC)],
                    trace := [Sys_open (Some ''a'') O_WRONLY_CREAT_TRUNC 3,
                              Sys_open (Some ''b'') O_WRONLY_CREAT_TRUNC 4]\<rparr>,
          [Some ''cat'', None, Some ''a'', None, Some ''b''], - 1, 4)
     \<and> redirections [''cat'', ''>'', ''a'', ''>'', ''b'']
         = [(Some ''a'', O_WRONLY_CREAT_TRUNC), (Some ''b'', O_WRONLY_CREAT_TRUNC)]
     \<and> bound_to ((fdt tty_world)[3 := Some (File ''a'' O_WRONLY_CREAT_TRUNC),
                                    4 := Some (File ''b'' O_WRONLY_CREAT_TRUNC)]) 3
         = Some (File ''a'' O_WRONLY_CREAT_TRUNC)"
    using handle_redirection_repeated_operators
      [of tty_world "[''cat'', ''>'', ''a'', ''>'', ''b'']" "- 1" "- 1"
          "tty_world\<lparr>fdt := (fdt tty_world)[3 := Some (File ''a'' O_WRONLY_CREAT_TRUNC),
                                              4 := Some (File ''b'' O_WRONLY_CREAT_TRUNC)],
                      trace := [Sys_open (Some ''a'') O_WRONLY_CREAT_TRUNC 3,
                                Sys_open (Some ''b'') O_WRONLY_CREAT_TRUNC 4]\<rparr>"
          "[Some ''cat'', None, Some ''a'', None, Some ''b'']" "- 1" 4]
    by (simp add: tty_world_def sys_open_def granted_def emit_def cell_def bound_to_def)
  have dispatch:
    "new_events tty_world
         (snd (execute_command tty_world (map Some [''cat'', ''>'', ''a'', ''>'', ''b''])))
       = [Sys_open (Some ''a'') O_WRONLY_CREAT_TRUNC 5, Sys_open (Some ''b'') O_WRONLY_CREAT_TRUNC 6,
          Sys_fork True,
          Child_exec (Some ''cat'') [''cat''] (Some (Stream ''stdin''))
            (Some (File ''b'' O_WRONLY_CREAT_TRUNC)) True,
          Sys_waitpid True]
     \<and> bound_to (fdt (snd (execute_command tty_world (map Some [''cat'', ''>'', ''a'', ''>'', ''b''])))) 5
         = Some (File ''a'' O_WRONLY_CREAT_TRUNC)"
    by code_simp
  show ?thesis
    by (intro conjI resolver [THEN conjunct1] resolver [THEN conjunct2, THEN conjunct1]
          resolver [THEN conjunct2, THEN conjunct2] dispatch [THEN conjunct1]
          dispatch [THEN conjunct2])
qed

section \<open>What redirection leaves of the argument list\<close>

lemma strip_redirections_cut:
  "strip_redirections toks
     = takeWhile (\<lambda>t. \<not> is_redir t) toks
       @ strip_redirections (drop 2 (dropWhile (\<lambda>t. \<not> is_redir t) toks))"
proof (induction toks)
  case Nil
  then show ?case by simp
next
  case (Cons t ts)
  then show ?case by (cases ts) auto
qed

text \<open>
  C3, as stated, fails: for \<^verbatim>\<open>cat > out.txt -n\<close> the array left by the resolver reads
  \<^verbatim>\<open>cat\<close> only, while removing exactly the operator and the filename would leave
  \<^verbatim>\<open>cat -n\<close>.
\<close>

theorem handle_redirection_removes_more_than_pair:
  "argv_of (fst (snd (handle_redirection tty_world
       (map Some [''cat'', ''>'', ''out.txt'', ''-n'']) (- 1) (- 1)))) = [''cat'']
   \<and> strip_redirections [''cat'', ''>'', ''out.txt'', ''-n''] = [''cat'', ''-n'']
   \<and> argv_of (fst (snd (handle_redirection tty_world
       (map Some [''cat'', ''>'', ''out.txt'', ''-n'']) (- 1) (- 1))))
       \<noteq> strip_redirections [''cat'', ''>'', ''out.txt'', ''-n'']"
  by code_simp

text \<open>
  C3, amended. For an argument list with a redirection operator, the array left by the
  resolver reads as the tokens in front of the first operator: the operator, the
  filename behind it and every later token are cut off, so neither \<^verbatim>\<open><\<close> nor \<^verbatim>\<open>>\<close>
  is left. When the first operator and its filename are the last two tokens, this
  removes exactly that pair. For \<^verbatim>\<open>cat > out.txt\<close> the array reads \<^verbatim>\<open>cat\<close>, and the
  only file opened is \<^verbatim>\<open>out.txt\<close>, for writing, with its descriptor in \<^verbatim>\<open>*out_fd\<close>.
\<close>

theorem handle_redirection_cuts_at_first_operator:
  assumes "handle_redirection w (map Some toks) i0 o0 = (w', args', i', o')"
    and "\<exists>t\<in>set toks. is_redir t"
  shows "argv_of args' = takeWhile (\<lambda>t. \<not> is_redir t) toks
       \<and> length (argv_of args') < length toks
       \<and> ''<'' \<notin> set (argv_of args') \<and> ''>'' \<notin> set (argv_of args')
       \<and> (length (dropWhile (\<lambda>t. \<not> is_redir t) toks) = 2 \<longrightarrow>
            argv_of args' = strip_redirections toks)
       \<and> (toks = [''cat'', ''>'', ''out.txt''] \<longrightarrow>
            argv_of args' = [''cat'']
            \<and> opens_of (new_events w w') = [(Some ''out.txt'', O_WRONLY_CREAT_TRUNC, o')])"
proof -
  let ?pre = "takeWhile (\<lambda>t. \<not> is_redir t) toks"
  have argv: "argv_of args' = ?pre"
    using hr_array [OF assms(1)] by (simp add: argv_of_cut)
  have shorter: "length ?pre < length toks"
    using assms(2) by (induction toks) auto
  have free: "''<'' \<notin> set ?pre \<and> ''>'' \<notin> set ?pre"
    by (auto dest!: set_takeWhileD simp: is_redir_def)
  have pair: "?pre = strip_redirections toks"
    if "length (dropWhile (\<lambda>t. \<not> is_redir t) toks) = 2"
    using strip_redirections_cut [of toks] that by simp
  have ex: "argv_of args' = [''cat'']
            \<and> opens_of (new_events w w') = [(Some ''out.txt'', O_WRONLY_CREAT_TRUNC, o')]"
    if t: "toks = [''cat'', ''>'', ''out.txt'']"
  proof -
    have a: "argv_of args' = [''cat'']" using argv t by (simp add: is_redir_def)
    have "map (\<lambda>(p, f, r). (p, f)) (opens_of (new_events w w'))
            = [(Some ''out.txt'', O_WRONLY_CREAT_TRUNC)]"
      using hr_opens [OF assms(1)] t by (simp add: cell_def)
    then obtain r where r: "opens_of (new_events w w') = [(Some ''out.txt'', O_WRONLY_CREAT_TRUNC, r)]"
      by auto
    have "o' = r" using hr_last [OF assms(1)] r by (simp add: results_for_def)
    then show ?thesis using a r by simp
  qed
  show ?thesis using argv shorter free pair ex by simp
qed

theorem handle_redirection_cuts_at_first_operator_witness:
  "handle_redirection tty_world (map Some [''cat'', ''>'', ''out.txt'']) (- 1) (- 1)
     = (tty_world\<lparr>fdt := (fdt tty_world)[3 := Some (File ''out.txt'' O_WRONLY_CREAT_TRUNC)],
                  trace := [Sys_open (Some ''out.txt'') O_WRONLY_CREAT_TRUNC 3]\<rparr>,
        [Some ''cat'', None, Some ''out.txt''], - 1, 3)
   \<and> is_redir ''>''
   \<and> argv_of [Some ''cat'', None, Some ''out.txt''] = [''cat'']
   \<and> strip_redirections [''cat'', ''>'', ''out.txt''] = [''cat'']"
  using handle_redirection_cuts_at_first_operator [of tty_world "[''cat'', ''>'', ''out.txt'']" "- 1" "- 1"
    "tty_world\<lparr>fdt := (fdt tty_world)[3 := Some (File ''out.txt'' O_WRONLY_CREAT_TRUNC)],
                  trace := [Sys_open (Some ''out.txt'') O_WRONLY_CREAT_TRUNC 3]\<rparr>"
    "[Some ''cat'', None, Some ''out.txt'']" "- 1" 3]
  by (simp add: is_redir_def tty_world_def sys_open_def granted_def emit_def cell_def)

section \<open>What the launched program receives\<close>

lemma execs_of_append: "execs_of (xs @ ys) = execs_of xs @ execs_of ys"
  by (induction xs) (auto split: event.splits)

lemma trace_sys_dup: "trace (snd (sys_dup w fd)) = trace w"
  by (simp add: sys_dup_def split: option.splits)

lemma trace_sys_dup2: "trace (snd (sys_dup2 w old new)) = trace w"
  by (simp add: sys_dup2_def)

lemma trace_sys_close: "trace (sys_close w fd) = trace w"
  by (simp add: sys_close_def)

lemma trace_wait_child: "trace (wait_child k w) = trace w @ replicate k (Sys_waitpid False) @ [Sys_waitpid True]"
  by (induction k arbitrary: w) (simp_all add: trace_emit replicate_app_Cons_same)

lemma execs_of_waits: "execs_of (replicate k (Sys_waitpid False)) = []"
  by (induction k) simp_all

lemma child_execvp_events:
  "\<exists>ok tail. trace (child_execvp msg T args w)
        = trace w @ Child_exec (cell args 0) (argv_of args) (bound_to T 0) (bound_to T 1) ok # tail
      \<and> (tail = [] \<or> tail = [Child_perror msg])"
proof (cases "cell args 0")
  case None
  then have "trace (child_execvp msg T args w)
      = trace w @ Child_exec (cell args 0) (argv_of args) (bound_to T 0) (bound_to T 1) False # []"
    by (simp add: child_execvp_def trace_emit)
  then show ?thesis by blast
next
  case (Some prog)
  show ?thesis
  proof (cases "granted w")
    case True
    then have "trace (child_execvp msg T args w)
        = trace w @ Child_exec (cell args 0) (argv_of args) (bound_to T 0) (bound_to T 1) True # []"
      using Some by (simp add: child_execvp_def Let_def trace_emit)
    then show ?thesis by blast
  next
    case False
    then have "trace (child_execvp msg T args w)
        = trace w @ Child_exec (cell args 0) (argv_of args) (bound_to T 0) (bound_to T 1) False
            # [Child_perror msg]"
      using Some by (simp add: child_execvp_def Let_def trace_emit)
    then show ?thesis by blast
  qed
qed

lemma launch_process_events:
  "\<exists>evs. trace (snd (launch_process w args)) = trace w @ evs
       \<and> execs_of evs = (if granted w then [argv_of args] else [])
       \<and> (Sys_fork True \<in> set evs) = granted w"
proof (cases "granted w")
  case True
  define w1 where "w1 = emit (Sys_fork True) w"
  define w2 where "w2 = child_execvp ''shell'' (fdt w1) args w1"
  define k where "k = stops w2 (length (trace w2))"
  obtain ok tail where ct: "trace w2
      = trace w1 @ Child_exec (cell args 0) (argv_of args) (bound_to (fdt w1) 0) (bound_to (fdt w1) 1) ok # tail"
    and tl: "tail = [] \<or> tail = [Child_perror ''shell'']"
    using child_execvp_events [of "''shell''" "fdt w1" args w1] by (auto simp: w2_def)
  define ce where "ce = Child_exec (cell args 0) (argv_of args) (bound_to (fdt w1) 0) (bound_to (fdt w1) 1) ok"
  have t2: "trace w2 = trace w @ Sys_fork True # ce # tail"
    using ct by (simp add: w1_def trace_emit ce_def)
  have l: "snd (launch_process w args) = wait_child k w2"
    using True by (simp add: launch_process_def Let_def w1_def w2_def k_def)
  let ?evs = "Sys_fork True # ce # tail @ replicate k (Sys_waitpid False) @ [Sys_waitpid True]"
  have "trace (snd (launch_process w args)) = trace w @ ?evs"
    by (simp add: l trace_wait_child t2)
  moreover have "execs_of tail = []" using tl by auto
  then have "execs_of ?evs = [argv_of args]"
    by (simp add: ce_def execs_of_append execs_of_waits)
  moreover have "Sys_fork True \<in> set ?evs" by simp
  ultimately show ?thesis using True by (intro exI [of _ ?evs]) simp
next
  case False
  then have "trace (snd (launch_process w args)) = trace w @ [Sys_fork False, Perror ''shell'']"
    by (simp add: launch_process_def Let_def trace_perror trace_emit)
  then show ?thesis using False by (intro exI [of _ "[Sys_fork False, Perror ''shell'']"]) simp
qed

lemma execs_of_opens:
  "\<forall>ev\<in>set evs. ev = Perror s \<or> (\<exists>p f r. ev = Sys_open p f r) \<Longrightarrow> execs_of evs = []"
  by (induction evs) auto

lemma execute_command_external_trace:
  assumes a0: "cell args 0 = Some a0"
    and np: "count_pipes args = 0"
    and nb: "find_builtin a0 [0..<shell_num_builtins] = None"
  shows "\<exists>w2 w3 args' ifd ofd w5.
           trace w2 = trace w
         \<and> handle_redirection w2 args (- 1) (- 1) = (w3, args', ifd, ofd)
         \<and> trace w5 = trace w3
         \<and> trace (snd (execute_command w args)) = trace (snd (launch_process w5 args'))"
proof -
  obtain s1 w1 where d1: "sys_dup w 0 = (s1, w1)" by (cases "sys_dup w 0")
  obtain s2 w2 where d2: "sys_dup w1 1 = (s2, w2)" by (cases "sys_dup w1 1")
  obtain w3 args' ifd ofd where hr: "handle_redirection w2 args (- 1) (- 1) = (w3, args', ifd, ofd)"
    by (cases "handle_redirection w2 args (- 1) (- 1)")
  define w4 where "w4 = (if ifd \<noteq> - 1 then sys_close (snd (sys_dup2 w3 ifd 0)) ifd else w3)"
  define w5 where "w5 = (if ofd \<noteq> - 1 then sys_close (snd (sys_dup2 w4 ofd 1)) ofd else w4)"
  have t2: "trace w2 = trace w"
    using trace_sys_dup [of w 0] trace_sys_dup [of w1 1] d1 d2 by simp
  have t5: "trace w5 = trace w3"
    by (simp add: w5_def w4_def trace_sys_close trace_sys_dup2)
  have "trace (snd (execute_command w args)) = trace (snd (launch_process w5 args'))"
    using a0 np nb
    by (simp add: execute_command_def d1 d2 hr Let_def case_prod_beta w4_def w5_def
                  trace_sys_close trace_sys_dup2)
  then show ?thesis using t2 hr t5 by blast
qed

text \<open>
  C9. For a command that is not empty, has no \<^verbatim>\<open>|\<close> and is not a built-in, the array
  left by the resolver reads as the tokens in front of the first \<^verbatim>\<open><\<close> or \<^verbatim>\<open>>\<close>,
  and this is the argument list of the one program \<open>execute_command\<close> executes when the
  process is created (no program is executed when it is not): every token from the
  first operator on, also those behind the filename, is left out.
\<close>

theorem launched_program_receives_prefix:
  assumes "toks \<noteq> []" and "''|'' \<notin> set toks" and "hd toks \<notin> set builtin_str"
  shows "argv_of (fst (snd (handle_redirection w (map Some toks) i0 o0)))
           = takeWhile (\<lambda>t. \<not> is_redir t) toks
       \<and> execs_of (new_events w (snd (execute_command w (map Some toks))))
           = (if Sys_fork True \<in> set (new_events w (snd (execute_command w (map Some toks))))
              then [takeWhile (\<lambda>t. \<not> is_redir t) toks] else [])"
proof -
  let ?args = "map Some toks"
  have a0: "cell ?args 0 = Some (hd toks)"
    using assms(1) by (cases toks) (simp_all add: cell_def)
  have np: "count_pipes ?args = 0"
    using assms(2) by (simp add: count_pipes_tokens)
  have nb: "find_builtin (hd toks) [0..<shell_num_builtins] = None"
    using assms(3) find_builtin_names [of "hd toks"] by simp
  obtain wa aa ia oa where h0: "handle_redirection w ?args i0 o0 = (wa, aa, ia, oa)"
    by (cases "handle_redirection w ?args i0 o0")
  have first: "argv_of (fst (snd (handle_redirection w ?args i0 o0)))
                 = takeWhile (\<lambda>t. \<not> is_redir t) toks"
    using hr_array [OF h0] by (simp add: h0 argv_of_cut)
  obtain w2 w3 args' ifd ofd w5 where e:
    "trace w2 = trace w"
    "handle_redirection w2 ?args (- 1) (- 1) = (w3, args', ifd, ofd)"
    "trace w5 = trace w3"
    "trace (snd (execute_command w ?args)) = trace (snd (launch_process w5 args'))"
    using execute_command_external_trace [OF a0 np nb, of w] by blast
  have argv: "argv_of args' = takeWhile (\<lambda>t. \<not> is_redir t) toks"
    using hr_array [OF e(2)] by (simp add: argv_of_cut)
  obtain evs where l: "trace (snd (launch_process w5 args')) = trace w5 @ evs"
    "execs_of evs = (if granted w5 then [argv_of args'] else [])"
    "(Sys_fork True \<in> set evs) = granted w5"
    using launch_process_events [of w5 args'] by blast
  have t3: "trace w3 = trace w @ new_events w2 w3"
    using hr_prefix [OF e(2)] e(1) by simp
  have ne: "new_events w (snd (execute_command w ?args)) = new_events w2 w3 @ evs"
    using e(3) e(4) l(1) t3 by (intro new_events_eq) simp
  have ops: "\<forall>ev\<in>set (new_events w2 w3). ev = Perror ''shell'' \<or> (\<exists>p f r. ev = Sys_open p f r)"
    using hr_events [OF e(2)] .
  have x0: "execs_of (new_events w2 w3) = []"
    using ops by (rule execs_of_opens)
  have f0: "Sys_fork True \<notin> set (new_events w2 w3)"
    using ops by auto
  show ?thesis using first ne x0 f0 l(2) l(3) argv by (simp add: execs_of_append)
qed

theorem launched_program_receives_prefix_witness:
  "[''sort'', ''-r'', ''<'', ''in.txt'', ''-u''] \<noteq> []
   \<and> ''|'' \<notin> set [''sort'', ''-r'', ''<'', ''in.txt'', ''-u'']
   \<and> hd [''sort'', ''-r'', ''<'', ''in.txt'', ''-u''] \<notin> set builtin_str
   \<and> argv_of (fst (snd (handle_redirection tty_world
          (map Some [''sort'', ''-r'', ''<'', ''in.txt'', ''-u'']) (- 1) (- 1)))) = [''sort'', ''-r'']
   \<and> execs_of (new_events tty_world (snd (execute_command tty_world
          (map Some [''sort'', ''-r'', ''<'', ''in.txt'', ''-u''])))) = [[''sort'', ''-r'']]"
  using launched_program_receives_prefix [of "[''sort'', ''-r'', ''<'', ''in.txt'', ''-u'']" tty_world "- 1" "- 1"]
  by code_simp

section \<open>The standard streams after a dispatch\<close>

lemma fdt_sys_dup2: "fdt (snd (sys_dup2 w oldfd newfd)) = tdup2 (fdt w) oldfd newfd"
  by (simp add: sys_dup2_def tdup2_def)

lemma fdt_sys_close: "fdt (sys_close w fd) = tclose (fdt w) fd"
  by (simp add: sys_close_def tclose_def)

lemma fdt_wait_child: "fdt (wait_child k w) = fdt w"
  by (induction k arbitrary: w) (simp_all add: fdt_emit)

lemma fdt_child_execvp: "fdt (child_execvp msg T args w) = fdt w"
  by (simp add: child_execvp_def Let_def fdt_emit split: option.splits)

lemma fdt_launch_process: "fdt (snd (launch_process w args)) = fdt w"
  by (simp add: launch_process_def Let_def fdt_wait_child fdt_child_execvp fdt_emit fdt_perror)

lemma sys_dup_fdt:
  assumes "sys_dup w fd = (s, w1)" and "fd_open (fdt w) fd"
  shows "(s = - 1 \<and> fdt w1 = fdt w \<and> lowest_free (fdt w) = None) \<or>
         (\<exists>n. s = int n \<and> n < length (fdt w) \<and> fdt w ! n = None
              \<and> fdt w1 = (fdt w)[n := fdt w ! nat fd])"
  using assms by (auto simp: sys_dup_def split: option.splits dest: lowest_free_Some)

lemma lowest_free_full: "lowest_free T = None \<Longrightarrow> lowest_free (T[n := Some x]) = None"
proof (induction T arbitrary: n rule: lowest_free.induct)
  case 1
  then show ?case by simp
next
  case (2 T)
  then show ?case by simp
next
  case (3 f T)
  then show ?case by (cases n) auto
qed

lemma snapshot:
  assumes d1: "sys_dup w 0 = (s1, w1)" and d2: "sys_dup w1 1 = (s2, w2)"
    and o0: "fd_open (fdt w) 0" and o1: "fd_open (fdt w) 1"
  shows "extends (fdt w) (fdt w2)"
    and "s1 = - 1 \<or> (\<exists>n. s1 = int n \<and> n < length (fdt w) \<and> fdt w ! n = None \<and> fdt w2 ! n = fdt w ! 0)"
    and "s2 = - 1 \<or> (\<exists>n. s2 = int n \<and> n < length (fdt w) \<and> fdt w ! n = None \<and> fdt w2 ! n = fdt w ! 1)"
    and "s1 = - 1 \<or> s2 = - 1 \<longrightarrow> lowest_free (fdt w2) = None"
proof -
  let ?T = "fdt w"
  have b0: "?T ! 0 \<noteq> None" and b1: "?T ! 1 \<noteq> None" and len: "1 < length ?T"
    using o0 o1 by (auto simp: fd_open_def)
  have c1: "(s1 = - 1 \<and> fdt w1 = ?T \<and> lowest_free ?T = None) \<or>
         (\<exists>n. s1 = int n \<and> n < length ?T \<and> ?T ! n = None \<and> fdt w1 = ?T[n := ?T ! 0])"
    using sys_dup_fdt [OF d1 o0] by simp
  have e1: "extends ?T (fdt w1)"
    using c1 by (auto simp: extends_refl intro: extends_alloc)
  have o1': "fd_open (fdt w1) 1"
    using e1 o1 by (auto simp: extends_def fd_open_def)
  have c2: "(s2 = - 1 \<and> fdt w2 = fdt w1 \<and> lowest_free (fdt w1) = None) \<or>
         (\<exists>n. s2 = int n \<and> n < length (fdt w1) \<and> fdt w1 ! n = None
              \<and> fdt w2 = (fdt w1)[n := fdt w1 ! 1])"
    using sys_dup_fdt [OF d2 o1'] by simp
  have e2: "extends (fdt w1) (fdt w2)"
    using c2 by (auto simp: extends_refl intro: extends_alloc)
  show "extends ?T (fdt w2)" using e1 e2 by (rule extends_trans)
  have w1_1: "fdt w1 ! 1 = ?T ! 1" and l1: "length (fdt w1) = length ?T"
    using e1 b1 len by (auto simp: extends_def)
  show "s1 = - 1 \<or> (\<exists>n. s1 = int n \<and> n < length ?T \<and> ?T ! n = None \<and> fdt w2 ! n = ?T ! 0)"
  proof (cases "s1 = - 1")
    case True
    then show ?thesis by simp
  next
    case False
    then obtain n where n: "s1 = int n" "n < length ?T" "?T ! n = None" "fdt w1 = ?T[n := ?T ! 0]"
      using c1 by auto
    have "fdt w1 ! n = ?T ! 0" using n by simp
    moreover have "fdt w1 ! n \<noteq> None" using calculation b0 by simp
    ultimately have "fdt w2 ! n = ?T ! 0"
      using e2 n(2) l1 by (auto simp: extends_def)
    then show ?thesis using n by auto
  qed
  show "s2 = - 1 \<or> (\<exists>n. s2 = int n \<and> n < length ?T \<and> ?T ! n = None \<and> fdt w2 ! n = ?T ! 1)"
  proof (cases "s2 = - 1")
    case True
    then show ?thesis by simp
  next
    case False
    then obtain n where n: "s2 = int n" "n < length (fdt w1)" "fdt w1 ! n = None"
      "fdt w2 = (fdt w1)[n := fdt w1 ! 1]"
      using c2 by auto
    have "?T ! n = None"
      using e1 n(2,3) l1 by (auto simp: extends_def)
    moreover have "fdt w2 ! n = ?T ! 1" using n w1_1 by simp
    ultimately show ?thesis using n l1 by auto
  qed
  show "s1 = - 1 \<or> s2 = - 1 \<longrightarrow> lowest_free (fdt w2) = None"
  proof
    assume "s1 = - 1 \<or> s2 = - 1"
    then show "lowest_free (fdt w2) = None"
    proof
      assume "s1 = - 1"
      then have "fdt w1 = ?T" "lowest_free ?T = None" using c1 by auto
      then show ?thesis using c2 by (auto dest: lowest_free_Some simp: lowest_free_None)
    next
      assume "s2 = - 1"
      then show ?thesis using c2 by auto
    qed
  qed
qed

lemma fresh_mono: "extends T Tm \<Longrightarrow> fresh Tm T' fd \<Longrightarrow> fresh T T' fd"
  by (auto simp: fresh_def extends_def)

lemma fresh_not_open: "fresh T T' fd \<Longrightarrow> \<not> fd_open T fd"
  by (simp add: fresh_def fd_open_def)

lemma extends_open: "extends T T' \<Longrightarrow> fd_open T fd \<Longrightarrow> fd_open T' fd"
  by (auto simp: extends_def fd_open_def)

lemma open_result:
  assumes "sys_open w path flags = (fd, w1)" and "extends (fdt w1) T'"
  shows "fd = - 1 \<or> (fresh (fdt w) T' fd \<and> fd_open (fdt w1) fd)"
proof -
  from sys_open_fdt [OF assms(1)] show ?thesis
  proof
    assume "fd = - 1 \<and> fdt w1 = fdt w"
    then show ?thesis by simp
  next
    assume "\<exists>n p. fd = int n \<and> path = Some p \<and> lowest_free (fdt w) = Some n
      \<and> fdt w1 = (fdt w)[n := Some (File p flags)]"
    then obtain n p where n: "fd = int n" "lowest_free (fdt w) = Some n"
      "fdt w1 = (fdt w)[n := Some (File p flags)]" by auto
    have f: "n < length (fdt w)" "fdt w ! n = None" using lowest_free_Some [OF n(2)] by auto
    have "fdt w1 ! n \<noteq> None" using n(3) f(1) by simp
    then have "T' ! n \<noteq> None" using assms(2) f(1) n(3) by (auto simp: extends_def)
    then show ?thesis using n f by (simp add: fresh_def fd_open_def)
  qed
qed

lemma hr_fresh:
  "handle_redirection w args i0 o0 = (w', args', i', o') \<Longrightarrow>
   (i0 = - 1 \<or> fd_open (fdt w) i0) \<longrightarrow> (o0 = - 1 \<or> fd_open (fdt w) o0) \<longrightarrow>
     (i' = - 1 \<or> i' = i0 \<or> fresh (fdt w) (fdt w') i')
   \<and> (o' = - 1 \<or> o' = o0 \<or> fresh (fdt w) (fdt w') o')
   \<and> (fresh (fdt w) (fdt w') i' \<and> fresh (fdt w) (fdt w') o' \<longrightarrow> i' \<noteq> o')"
proof (induction rule: hr_induct)
  case (Nil w ifd ofd)
  then show ?case by (auto simp: fresh_def)
next
  case (Null w rest ifd ofd)
  then show ?case by (auto simp: fresh_def)
next
  case (Other w t rest ifd ofd w' r i' o')
  then show ?case by simp
next
  case (Open w t rest ifd ofd flags fd w1 w2 w' r i' o')
  let ?T = "fdt w" and ?Tm = "fdt w2" and ?T' = "fdt w'"
  have tm: "?Tm = fdt w1" using Open(4) by (simp add: fdt_perror)
  have em: "extends ?T ?Tm" using sys_open_extends [OF Open(3)] tm by simp
  have e': "extends ?Tm ?T'" using hr_extends [OF Open(5)] .
  have fd: "fd = - 1 \<or> (fresh ?T ?T' fd \<and> fd_open ?Tm fd)"
    using open_result [OF Open(3)] e' tm by simp
  show ?case
  proof (intro impI)
    assume pi: "ifd = - 1 \<or> fd_open ?T ifd" and po: "ofd = - 1 \<or> fd_open ?T ofd"
    have pi': "ifd = - 1 \<or> fd_open ?Tm ifd" using pi em by (auto dest: extends_open)
    have po': "ofd = - 1 \<or> fd_open ?Tm ofd" using po em by (auto dest: extends_open)
    show "(i' = - 1 \<or> i' = ifd \<or> fresh ?T ?T' i')
        \<and> (o' = - 1 \<or> o' = ofd \<or> fresh ?T ?T' o')
        \<and> (fresh ?T ?T' i' \<and> fresh ?T ?T' o' \<longrightarrow> i' \<noteq> o')"
    proof (cases "t = ''>''")
      case True
      have ih: "(i' = - 1 \<or> i' = ifd \<or> fresh ?Tm ?T' i')
              \<and> (o' = - 1 \<or> o' = fd \<or> fresh ?Tm ?T' o')
              \<and> (fresh ?Tm ?T' i' \<and> fresh ?Tm ?T' o' \<longrightarrow> i' \<noteq> o')"
        using Open(6) True pi' fd by auto
      have a: "i' = - 1 \<or> i' = ifd \<or> fresh ?T ?T' i'"
        using ih fresh_mono [OF em] by blast
      have b: "o' = - 1 \<or> o' = ofd \<or> fresh ?T ?T' o'"
        using ih fd fresh_mono [OF em] by blast
      have c: "i' \<noteq> o'" if fi: "fresh ?T ?T' i'" and fo: "fresh ?T ?T' o'"
      proof -
        have "i' \<noteq> - 1" using fi by (auto simp: fresh_def)
        moreover have "i' \<noteq> ifd" using fi pi by (auto simp: fresh_def fd_open_def)
        ultimately have fim: "fresh ?Tm ?T' i'" using ih by blast
        have "o' \<noteq> - 1" using fo by (auto simp: fresh_def)
        then have "o' = fd \<or> fresh ?Tm ?T' o'" using ih by blast
        then show ?thesis
        proof
          assume "o' = fd"
          then have "fd_open ?Tm o'" using fd \<open>o' \<noteq> - 1\<close> by auto
          then show ?thesis using fim by (auto dest: fresh_not_open)
        next
          assume "fresh ?Tm ?T' o'"
          then show ?thesis using ih fim by blast
        qed
      qed
      show ?thesis using a b c by blast
    next
      case False
      have ih: "(i' = - 1 \<or> i' = fd \<or> fresh ?Tm ?T' i')
              \<and> (o' = - 1 \<or> o' = ofd \<or> fresh ?Tm ?T' o')
              \<and> (fresh ?Tm ?T' i' \<and> fresh ?Tm ?T' o' \<longrightarrow> i' \<noteq> o')"
        using Open(6) False po' fd by auto
      have a: "i' = - 1 \<or> i' = ifd \<or> fresh ?T ?T' i'"
        using ih fd fresh_mono [OF em] by blast
      have b: "o' = - 1 \<or> o' = ofd \<or> fresh ?T ?T' o'"
        using ih fresh_mono [OF em] by blast
      have c: "i' \<noteq> o'" if fi: "fresh ?T ?T' i'" and fo: "fresh ?T ?T' o'"
      proof -
        have "o' \<noteq> - 1" using fo by (auto simp: fresh_def)
        moreover have "o' \<noteq> ofd" using fo po by (auto simp: fresh_def fd_open_def)
        ultimately have fom: "fresh ?Tm ?T' o'" using ih by blast
        have "i' \<noteq> - 1" using fi by (auto simp: fresh_def)
        then have "i' = fd \<or> fresh ?Tm ?T' i'" using ih by blast
        then show ?thesis
        proof
          assume "i' = fd"
          then have "fd_open ?Tm i'" using fd \<open>i' \<noteq> - 1\<close> by auto
          then show ?thesis using fom by (auto dest: fresh_not_open)
        next
          assume "fresh ?Tm ?T' i'"
          then show ?thesis using ih fom by blast
        qed
      qed
      show ?thesis using a b c by blast
    qed
  qed
qed

lemma length_tdup2: "length (tdup2 T oldfd newfd) = length T"
  by (simp add: tdup2_def)

lemma length_tclose: "length (tclose T fd) = length T"
  by (simp add: tclose_def)

lemma tdup2_nth:
  "k < length T \<Longrightarrow>
   tdup2 T oldfd newfd ! k
     = (if fd_open T oldfd \<and> 0 \<le> newfd \<and> nat newfd < length T \<and> k = nat newfd
        then T ! nat oldfd else T ! k)"
  by (auto simp: tdup2_def nth_list_update)

lemma tclose_nth:
  "k < length T \<Longrightarrow> tclose T fd ! k = (if fd_open T fd \<and> k = nat fd then None else T ! k)"
  by (auto simp: tclose_def nth_list_update)

text \<open>One redirection applied: \<open>dup2(fd, target); close(fd)\<close> when \<open>fd\<close> is not -1.\<close>

lemma redirect_step:
  assumes "fd = - 1 \<or> fresh T2 T fd" and "length T = length T2"
    and "k < length T" and "T2 ! k \<noteq> None" and "k \<noteq> target"
  shows "(if fd \<noteq> - 1 then tclose (tdup2 T fd (int target)) fd else T) ! k = T ! k"
proof (cases "fd = - 1")
  case True
  then show ?thesis by simp
next
  case False
  then have f: "fresh T2 T fd" using assms(1) by simp
  then have "k \<noteq> nat fd" using assms(4) by (auto simp: fresh_def)
  then show ?thesis using False assms(3,5)
    by (simp add: tclose_nth tdup2_nth length_tdup2)
qed

lemma redirect_step_fresh:
  assumes "fd = - 1 \<or> fresh T2 T fd" and "length T = length T2"
    and "fresh T2 T g" and "g \<noteq> fd" and "nat g \<noteq> target"
  shows "fresh T2 (if fd \<noteq> - 1 then tclose (tdup2 T fd (int target)) fd else T) g"
proof (cases "fd = - 1")
  case True
  then show ?thesis using assms(3) by simp
next
  case False
  then have f: "fresh T2 T fd" using assms(1) by simp
  have "nat g \<noteq> nat fd" using f assms(3,4) by (auto simp: fresh_def)
  then show ?thesis using False assms(2,3,5)
    by (simp add: fresh_def tclose_nth tdup2_nth length_tdup2)
qed

lemma fd_open_minus1: "\<not> fd_open T (- 1)"
  by (simp add: fd_open_def)

lemma tclose_keep:
  assumes "k < length T" and "fd = - 1 \<or> int k < fd"
  shows "tclose T fd ! k = T ! k"
proof -
  have "k \<noteq> nat fd" if "int k < fd"
    using that by arith
  then have "\<not> fd_open T fd \<or> k \<noteq> nat fd"
    using assms(2) by (auto simp: fd_open_def)
  then show ?thesis using assms(1) by (auto simp: tclose_nth)
qed

lemma free_ge2:
  assumes "T0 ! 0 \<noteq> None" and "T0 ! 1 \<noteq> None" and "T0 ! n = None"
  shows "2 \<le> n"
proof (rule ccontr)
  assume "\<not> 2 \<le> n"
  then have "n = 0 \<or> n = 1" by arith
  then show False using assms by auto
qed

lemma restore_streams:
  assumes len: "length T = length T0" and l0: "1 < length T0"
    and b0: "T0 ! 0 \<noteq> None" and b1: "T0 ! 1 \<noteq> None"
    and s1: "(s1 = - 1 \<and> T ! 0 = T0 ! 0) \<or> (\<exists>n. s1 = int n \<and> n < length T0 \<and> T0 ! n = None \<and> T ! n = T0 ! 0)"
    and s2: "(s2 = - 1 \<and> T ! 1 = T0 ! 1) \<or> (\<exists>n. s2 = int n \<and> n < length T0 \<and> T0 ! n = None \<and> T ! n = T0 ! 1)"
  shows "tclose (tclose (tdup2 (tdup2 T s1 0) s2 1) s1) s2 ! 0 = T0 ! 0
       \<and> tclose (tclose (tdup2 (tdup2 T s1 0) s2 1) s1) s2 ! 1 = T0 ! 1
       \<and> length (tclose (tclose (tdup2 (tdup2 T s1 0) s2 1) s1) s2) = length T0"
proof -
  let ?T7 = "tdup2 T s1 0"
  let ?T8 = "tdup2 ?T7 s2 1"
  have n1: "s1 = - 1 \<or> 2 \<le> s1"
    using s1 free_ge2 [OF b0 b1] by fastforce
  have n2: "s2 = - 1 \<or> 2 \<le> s2"
    using s2 free_ge2 [OF b0 b1] by fastforce
  have p0: "0 < length T" and p1: "1 < length T" and p1': "Suc 0 < length T"
    using len l0 by arith+
  have t7_0: "?T7 ! 0 = T0 ! 0"
    using s1 b0 len by (auto simp: tdup2_nth [OF p0] fd_open_def)
  have t7_k: "?T7 ! k = T ! k" if "k < length T" "k \<noteq> 0" for k
    using that by (simp add: tdup2_nth)
  have l7: "length ?T7 = length T0" by (simp add: length_tdup2 len)
  have t8_1: "?T8 ! 1 = T0 ! 1"
  proof (cases "s2 = - 1")
    case True
    then show ?thesis using s2 t7_k [of 1] p1 by (simp add: tdup2_def fd_open_def)
  next
    case False
    then obtain n where n: "s2 = int n" "n < length T0" "T0 ! n = None" "T ! n = T0 ! 1"
      using s2 by auto
    have "n \<noteq> 0" using free_ge2 [OF b0 b1 n(3)] by simp
    then have "?T7 ! n = T0 ! 1" using t7_k [of n] n len by simp
    moreover have "1 < length ?T7" using l7 l0 by arith
    ultimately show ?thesis using n l7 b1 by (simp add: tdup2_nth fd_open_def)
  qed
  have q0: "0 < length ?T7" using l7 l0 by arith
  have t8_0: "?T8 ! 0 = T0 ! 0"
    using t7_0 by (simp add: tdup2_nth [OF q0])
  have l8: "length ?T8 = length T0" by (simp add: length_tdup2 len)
  have r0: "0 < length ?T8" "0 < length (tclose ?T8 s1)"
    and r1: "1 < length ?T8" "1 < length (tclose ?T8 s1)"
    using l8 l0 by (simp_all only: length_tclose)
  have g1: "s1 = - 1 \<or> int 0 < s1" "s1 = - 1 \<or> int 1 < s1" using n1 by auto
  have g2: "s2 = - 1 \<or> int 0 < s2" "s2 = - 1 \<or> int 1 < s2" using n2 by auto
  have c0: "tclose (tclose ?T8 s1) s2 ! 0 = ?T8 ! 0"
    using tclose_keep [OF r0(2) g2(1)] tclose_keep [OF r0(1) g1(1)] by simp
  have c1: "tclose (tclose ?T8 s1) s2 ! 1 = ?T8 ! 1"
    using tclose_keep [OF r1(2) g2(2)] tclose_keep [OF r1(1) g1(2)] by simp
  show ?thesis using c0 c1 t8_0 t8_1 l8 by (simp add: length_tclose)
qed

lemma extends_nth: "extends T T' \<Longrightarrow> k < length T \<Longrightarrow> T ! k \<noteq> None \<Longrightarrow> T' ! k = T ! k"
  by (simp add: extends_def)

lemma extends_length: "extends T T' \<Longrightarrow> length T' = length T"
  by (simp add: extends_def)

lemma full_no_fresh: "lowest_free T = None \<Longrightarrow> \<not> fresh T T' fd"
  by (auto simp: fresh_def dest: lowest_free_None)

text \<open>
  C4, as stated, fails: it speaks of every dispatch of such a command, and the results
  of \<^verbatim>\<open>dup\<close> are not checked. With descriptor 1 closed before the call,
  \<^verbatim>\<open>dup(STDIN_FILENO)\<close> returns 1; \<^verbatim>\<open>cat > out\<close> then rebinds descriptor 1 to the file,
  and the restoring \<^verbatim>\<open>dup2(saved_stdin, STDIN_FILENO)\<close> binds descriptor 0 to it:
  standard input, bound to the terminal before the call, is bound to \<^verbatim>\<open>out\<close> after it.
\<close>

theorem execute_command_closed_stdout_rebinds_stdin:
  "cell [Some ''cat'', Some ''>'', Some ''out''] 0 = Some ''cat''
   \<and> count_pipes [Some ''cat'', Some ''>'', Some ''out''] = 0
   \<and> ''cat'' \<notin> set builtin_str
   \<and> bound_to (fdt (tty_world\<lparr>fdt := [Some (Stream ''stdin''), None, Some (Stream ''stderr''),
                                          None, None]\<rparr>)) 0
       = Some (Stream ''stdin'')
   \<and> bound_to (fdt (snd (execute_command
         (tty_world\<lparr>fdt := [Some (Stream ''stdin''), None, Some (Stream ''stderr''), None, None]\<rparr>)
         [Some ''cat'', Some ''>'', Some ''out'']))) 0
       = Some (File ''out'' O_WRONLY_CREAT_TRUNC)
   \<and> bound_to (fdt (snd (execute_command
         (tty_world\<lparr>fdt := [Some (Stream ''stdin''), None, Some (Stream ''stderr''), None, None]\<rparr>)
         [Some ''cat'', Some ''>'', Some ''out'']))) 0
       \<noteq> bound_to (fdt (tty_world\<lparr>fdt := [Some (Stream ''stdin''), None, Some (Stream ''stderr''),
                                          None, None]\<rparr>)) 0"
  by code_simp

text \<open>
  C4, amended. For a command that is not empty, has no \<^verbatim>\<open>|\<close> and is not a built-in,
  dispatched while descriptors 0 and 1 are both open: when \<open>execute_command\<close> returns, descriptors 0 and
  1 are bound to what they were bound to before the call, whatever the argument list
  redirects and whatever the environment answers (files that cannot be opened, a
  descriptor table that is full, a process that cannot be created, a program that is
  not found).
\<close>

theorem execute_command_restores_streams:
  assumes a0: "cell args 0 = Some a0" and np: "count_pipes args = 0"
    and nb: "a0 \<notin> set builtin_str"
    and o0: "fd_open (fdt w) 0" and o1: "fd_open (fdt w) 1"
  shows "bound_to (fdt (snd (execute_command w args))) 0 = bound_to (fdt w) 0
       \<and> bound_to (fdt (snd (execute_command w args))) 1 = bound_to (fdt w) 1
       \<and> length (fdt (snd (execute_command w args))) = length (fdt w)"
proof -
  let ?T0 = "fdt w"
  have nb': "find_builtin a0 [0..<shell_num_builtins] = None"
    using nb find_builtin_names [of a0] by simp
  obtain s1 w1 where d1: "sys_dup w 0 = (s1, w1)" by (cases "sys_dup w 0")
  obtain s2 w2 where d2: "sys_dup w1 1 = (s2, w2)" by (cases "sys_dup w1 1")
  obtain w3 args' ifd ofd where hr: "handle_redirection w2 args (- 1) (- 1) = (w3, args', ifd, ofd)"
    by (cases "handle_redirection w2 args (- 1) (- 1)")
  let ?T2 = "fdt w2" and ?T3 = "fdt w3"
  define T4 where "T4 = (if ifd \<noteq> - 1 then tclose (tdup2 ?T3 ifd (int 0)) ifd else ?T3)"
  define T5 where "T5 = (if ofd \<noteq> - 1 then tclose (tdup2 T4 ofd (int 1)) ofd else T4)"
  have final: "fdt (snd (execute_command w args))
                 = tclose (tclose (tdup2 (tdup2 T5 s1 0) s2 1) s1) s2"
    using a0 np nb'
    by (simp add: execute_command_def d1 d2 hr Let_def case_prod_beta T4_def T5_def
                  fdt_sys_close fdt_sys_dup2 fdt_launch_process)
  have b0: "?T0 ! 0 \<noteq> None" and b1: "?T0 ! 1 \<noteq> None" and l0: "1 < length ?T0"
    using o0 o1 by (auto simp: fd_open_def)
  note snap = snapshot [OF d1 d2 o0 o1]
  have e2: "extends ?T0 ?T2" using snap(1) .
  have e3: "extends ?T2 ?T3" using hr_extends [OF hr] .
  have l2: "length ?T2 = length ?T0" using e2 by (rule extends_length)
  have l3: "length ?T3 = length ?T2" using e3 by (rule extends_length)
  have p0: "0 < length ?T0" using l0 by arith
  have t2_0: "?T2 ! 0 = ?T0 ! 0" using extends_nth [OF e2 p0 b0] .
  have t2_1: "?T2 ! 1 = ?T0 ! 1" using extends_nth [OF e2 l0 b1] .
  have fr: "(ifd = - 1 \<or> fresh ?T2 ?T3 ifd) \<and> (ofd = - 1 \<or> fresh ?T2 ?T3 ofd)
            \<and> (fresh ?T2 ?T3 ifd \<and> fresh ?T2 ?T3 ofd \<longrightarrow> ifd \<noteq> ofd)"
    using hr_fresh [OF hr] by auto
  have fi: "ifd = - 1 \<or> fresh ?T2 ?T3 ifd" and fo: "ofd = - 1 \<or> fresh ?T2 ?T3 ofd"
    using fr by auto
  have l4: "length T4 = length ?T2"
    by (simp add: T4_def length_tclose length_tdup2 l3)
  have fo4: "ofd = - 1 \<or> fresh ?T2 T4 ofd"
  proof (cases "ofd = - 1")
    case True
    then show ?thesis by simp
  next
    case False
    then have f: "fresh ?T2 ?T3 ofd" using fo by simp
    have ne: "ofd \<noteq> ifd" using fr f fi by (cases "ifd = - 1") (auto simp: False)
    have "nat ofd \<noteq> 0" using f t2_0 b0 by (auto simp: fresh_def)
    then show ?thesis
      using redirect_step_fresh [OF fi l3 f ne, of 0] by (simp add: T4_def)
  qed
  have keep: "T5 ! k = ?T2 ! k" if k: "k < length ?T0" "?T2 ! k \<noteq> None" "k \<noteq> 0" "k \<noteq> 1" for k
  proof -
    have k2: "k < length ?T2" using k(1) l2 by simp
    have k3: "k < length ?T3" using k2 l3 by simp
    have k4: "k < length T4" using k2 l4 by simp
    have "T5 ! k = T4 ! k"
      unfolding T5_def using redirect_step [OF fo4 l4 k4 k(2) k(4)] .
    also have "T4 ! k = ?T3 ! k"
      unfolding T4_def using redirect_step [OF fi l3 k3 k(2) k(3)] .
    also have "?T3 ! k = ?T2 ! k" using extends_nth [OF e3 k2 k(2)] .
    finally show ?thesis .
  qed
  have unredirected: "T5 = ?T3" if "lowest_free ?T2 = None"
  proof -
    have "ifd = - 1" "ofd = - 1"
      using fi fo full_no_fresh [OF that] by auto
    then show ?thesis by (simp add: T5_def T4_def)
  qed
  have t3_0: "?T3 ! 0 = ?T0 ! 0"
    using extends_nth [OF e3, of 0] l2 p0 t2_0 b0 by simp
  have t3_1: "?T3 ! 1 = ?T0 ! 1"
    using extends_nth [OF e3, of 1] l2 l0 t2_1 b1 by simp
  have l5: "length T5 = length ?T0"
    by (simp add: T5_def length_tclose length_tdup2 l4 l2)
  have s1: "(s1 = - 1 \<and> T5 ! 0 = ?T0 ! 0)
          \<or> (\<exists>n. s1 = int n \<and> n < length ?T0 \<and> ?T0 ! n = None \<and> T5 ! n = ?T0 ! 0)"
  proof (cases "s1 = - 1")
    case True
    then have "T5 = ?T3" using snap(4) unredirected by simp
    then show ?thesis using True t3_0 by simp
  next
    case False
    then obtain n where n: "s1 = int n" "n < length ?T0" "?T0 ! n = None" "?T2 ! n = ?T0 ! 0"
      using snap(2) by auto
    have "2 \<le> n" using free_ge2 [OF b0 b1 n(3)] .
    then have "T5 ! n = ?T2 ! n" using keep [of n] n b0 by simp
    then show ?thesis using n by auto
  qed
  have s2: "(s2 = - 1 \<and> T5 ! 1 = ?T0 ! 1)
          \<or> (\<exists>n. s2 = int n \<and> n < length ?T0 \<and> ?T0 ! n = None \<and> T5 ! n = ?T0 ! 1)"
  proof (cases "s2 = - 1")
    case True
    then have "T5 = ?T3" using snap(4) unredirected by simp
    then show ?thesis using True t3_1 by simp
  next
    case False
    then obtain n where n: "s2 = int n" "n < length ?T0" "?T0 ! n = None" "?T2 ! n = ?T0 ! 1"
      using snap(3) by auto
    have "2 \<le> n" using free_ge2 [OF b0 b1 n(3)] .
    then have "T5 ! n = ?T2 ! n" using keep [of n] n b1 by simp
    then show ?thesis using n by auto
  qed
  have "tclose (tclose (tdup2 (tdup2 T5 s1 0) s2 1) s1) s2 ! 0 = ?T0 ! 0
      \<and> tclose (tclose (tdup2 (tdup2 T5 s1 0) s2 1) s1) s2 ! 1 = ?T0 ! 1
      \<and> length (tclose (tclose (tdup2 (tdup2 T5 s1 0) s2 1) s1) s2) = length ?T0"
    using restore_streams [OF l5 l0 b0 b1 s1 s2] .
  then show ?thesis using l0 p0 by (simp add: final bound_to_def)
qed

theorem execute_command_restores_streams_witness:
  "cell (map Some [''cat'', ''<'', ''in.txt'', ''>'', ''out.txt'']) 0 = Some ''cat''
   \<and> count_pipes (map Some [''cat'', ''<'', ''in.txt'', ''>'', ''out.txt'']) = 0
   \<and> ''cat'' \<notin> set builtin_str
   \<and> fd_open (fdt (tty_world\<lparr>grants := (\<lambda>n. n < 2)\<rparr>)) 0
   \<and> fd_open (fdt (tty_world\<lparr>grants := (\<lambda>n. n < 2)\<rparr>)) 1
   \<and> new_events (tty_world\<lparr>grants := (\<lambda>n. n < 2)\<rparr>)
         (snd (execute_command (tty_world\<lparr>grants := (\<lambda>n. n < 2)\<rparr>)
          (map Some [''cat'', ''<'', ''in.txt'', ''>'', ''out.txt''])))
       = [Sys_open (Some ''in.txt'') O_RDONLY 5, Sys_open (Some ''out.txt'') O_WRONLY_CREAT_TRUNC 6,
          Sys_fork False, Perror ''shell'']
   \<and> bound_to (fdt (snd (execute_command (tty_world\<lparr>grants := (\<lambda>n. n < 2)\<rparr>)
          (map Some [''cat'', ''<'', ''in.txt'', ''>'', ''out.txt''])))) 0 = Some (Stream ''stdin'')
   \<and> bound_to (fdt (snd (execute_command (tty_world\<lparr>grants := (\<lambda>n. n < 2)\<rparr>)
          (map Some [''cat'', ''<'', ''in.txt'', ''>'', ''out.txt''])))) 1 = Some (Stream ''stdout'')"
  using execute_command_restores_streams [of "map Some [''cat'', ''<'', ''in.txt'', ''>'', ''out.txt'']"
          "''cat''" "tty_world\<lparr>grants := (\<lambda>n. n < 2)\<rparr>"]
  by code_simp

section \<open>The snapshot on the other paths\<close>

text \<open>
  C1 does not hold of the code. \<open>execute_command\<close> duplicates descriptors 0 and 1 before
  it looks at the command, and closes the duplicates on the external path only: after
  an empty command, a built-in and a pipeline the two duplicates (descriptors 3 and 4
  here) are still open; after an external command they are closed.
\<close>

theorem execute_command_leaves_snapshot_open:
  "fdt (snd (execute_command tty_world []))
     = [Some (Stream ''stdin''), Some (Stream ''stdout''), Some (Stream ''stderr''),
        Some (Stream ''stdin''), Some (Stream ''stdout''), None, None, None]
   \<and> fdt (snd (execute_command tty_world [Some ''help'']))
     = [Some (Stream ''stdin''), Some (Stream ''stdout''), Some (Stream ''stderr''),
        Some (Stream ''stdin''), Some (Stream ''stdout''), None, None, None]
   \<and> fdt (snd (execute_command tty_world [Some ''ls'', Some ''|'', Some ''wc'']))
     = [Some (Stream ''stdin''), Some (Stream ''stdout''), Some (Stream ''stderr''),
        Some (Stream ''stdin''), Some (Stream ''stdout''), None, None, None]
   \<and> fdt (snd (execute_command tty_world [Some ''ls'']))
     = [Some (Stream ''stdin''), Some (Stream ''stdout''), Some (Stream ''stderr''),
        None, None, None, None, None]"
  by code_simp

section \<open>A failed spawn in a pipeline\<close>

lemma forks_of_append: "forks_of (xs @ ys) = forks_of xs @ forks_of ys"
  by (induction xs) (auto split: event.splits)

lemma trace_fold_close: "trace (fold (\<lambda>fd c. sys_close c fd) fds w) = trace w"
  by (induction fds arbitrary: w) (simp_all add: trace_sys_close)

lemma trace_wait_all: "trace (wait_all k w) = trace w @ replicate k Sys_wait"
  by (induction k arbitrary: w) (simp_all add: trace_emit replicate_app_Cons_same)

lemma forks_of_waits: "forks_of (replicate k Sys_wait) = []"
  by (induction k) simp_all

lemma child_dup2_trace:
  "\<exists>evs. trace (let (r, c) = sys_dup2 w oldfd newfd
                 in if r < 0 then emit (Child_perror ''dup2'') c else c) = trace w @ evs
        \<and> forks_of evs = []"
proof (cases "fst (sys_dup2 w oldfd newfd) < 0")
  case True
  then show ?thesis
    using trace_sys_dup2 [of w oldfd newfd]
    by (intro exI [of _ "[Child_perror ''dup2'']"]) (simp add: case_prod_beta trace_emit)
next
  case False
  then show ?thesis
    using trace_sys_dup2 [of w oldfd newfd]
    by (intro exI [of _ "[]"]) (simp add: case_prod_beta)
qed

lemma child_execvp_trace:
  "\<exists>evs. trace (child_execvp msg T args w) = trace w @ evs \<and> forks_of evs = []"
proof -
  obtain ok tail where t: "trace (child_execvp msg T args w)
      = trace w @ Child_exec (cell args 0) (argv_of args) (bound_to T 0) (bound_to T 1) ok # tail"
    and tl: "tail = [] \<or> tail = [Child_perror msg]"
    using child_execvp_events [of msg T args w] by blast
  have "forks_of (Child_exec (cell args 0) (argv_of args) (bound_to T 0) (bound_to T 1) ok # tail) = []"
    using tl by auto
  then show ?thesis using t by blast
qed

lemma child_stage_trace:
  "\<exists>evs. trace (child_stage args cmd_args pipefd num_cmds i w) = trace w @ evs \<and> forks_of evs = []"
proof -
  define c1 where "c1 = (if i \<noteq> 0
                then (let (r, c) = sys_dup2 w (pipefd ! ((i - 1) * 2)) 0
                      in if r < 0 then emit (Child_perror ''dup2'') c else c)
                else w)"
  define c2 where "c2 = (if i \<noteq> num_cmds - 1
                then (let (r, c) = sys_dup2 c1 (pipefd ! (i * 2 + 1)) 1
                      in if r < 0 then emit (Child_perror ''dup2'') c else c)
                else c1)"
  define c3 where "c3 = fold (\<lambda>fd c. sys_close c fd) pipefd c2"
  define c4 where "c4 = child_execvp ''execvp'' (fdt c3) (drop (cmd_args ! i) args) c3"
  have r: "child_stage args cmd_args pipefd num_cmds i w = c4\<lparr>fdt := fdt w\<rparr>"
    by (simp add: child_stage_def Let_def c1_def c2_def c3_def c4_def)
  obtain e1 where e1: "trace c1 = trace w @ e1" "forks_of e1 = []"
    using child_dup2_trace [of w "pipefd ! ((i - 1) * 2)" 0] by (cases "i \<noteq> 0") (auto simp: c1_def)
  obtain e2 where e2: "trace c2 = trace c1 @ e2" "forks_of e2 = []"
    using child_dup2_trace [of c1 "pipefd ! (i * 2 + 1)" 1] by (cases "i \<noteq> num_cmds - 1") (auto simp: c2_def)
  have e3: "trace c3 = trace c2" by (simp add: c3_def trace_fold_close)
  obtain e4 where e4: "trace c4 = trace c3 @ e4" "forks_of e4 = []"
    using child_execvp_trace [of "''execvp''" "fdt c3" "drop (cmd_args ! i) args" c3]
    by (auto simp: c4_def)
  have "trace (c4\<lparr>fdt := fdt w\<rparr>) = trace w @ (e1 @ e2 @ e4)"
    using e1 e2 e3 e4 by simp
  moreover have "forks_of (e1 @ e2 @ e4) = []"
    using e1 e2 e4 by (simp add: forks_of_append)
  ultimately show ?thesis using r by (intro exI [of _ "e1 @ e2 @ e4"]) simp
qed

lemma spawn_loop_forks:
  "spawn_loop args cmd_args pipefd num_cmds is w = (ok, w') \<Longrightarrow>
   \<exists>evs. trace w' = trace w @ evs
     \<and> (if ok then forks_of evs = replicate (length is) True
         else \<exists>j<length is. \<exists>pre. forks_of evs = replicate j True @ [False]
                \<and> evs = pre @ [Sys_fork False, Perror ''fork''])"
proof (induction "is" arbitrary: w ok w')
  case Nil
  then show ?case by simp
next
  case (Cons i "is")
  show ?case
  proof (cases "granted w")
    case False
    then have "ok = False" "w' = perror ''fork'' (emit (Sys_fork False) w)"
      using Cons.prems by (auto simp: Let_def)
    then show ?thesis
      by (intro exI [of _ "[Sys_fork False, Perror ''fork'']"])
         (auto simp: trace_perror trace_emit intro!: exI [of _ 0])
  next
    case True
    define w1 where "w1 = emit (Sys_fork True) w"
    define wc where "wc = child_stage args cmd_args pipefd num_cmds i w1"
    have rec: "spawn_loop args cmd_args pipefd num_cmds is wc = (ok, w')"
      using Cons.prems True by (simp add: Let_def w1_def wc_def)
    obtain ce where ce: "trace wc = trace w1 @ ce" "forks_of ce = []"
      using child_stage_trace [of args cmd_args pipefd num_cmds i w1] by (auto simp: wc_def)
    obtain evs where evs: "trace w' = trace wc @ evs"
      "if ok then forks_of evs = replicate (length is) True
       else \<exists>j<length is. \<exists>pre. forks_of evs = replicate j True @ [False]
                \<and> evs = pre @ [Sys_fork False, Perror ''fork'']"
      using Cons.IH [OF rec] by blast
    let ?all = "Sys_fork True # ce @ evs"
    have t: "trace w' = trace w @ ?all"
      using evs(1) ce(1) by (simp add: w1_def trace_emit)
    have f: "forks_of ?all = True # forks_of evs"
      using ce(2) by (simp add: forks_of_append)
    show ?thesis
    proof (cases ok)
      case True
      then show ?thesis using t f evs(2) by (intro exI [of _ ?all]) simp
    next
      case False
      then obtain j pre where j: "j < length is" "forks_of evs = replicate j True @ [False]"
        "evs = pre @ [Sys_fork False, Perror ''fork'']"
        using evs(2) by auto
      have x1: "forks_of ?all = replicate (Suc j) True @ [False]" using f j(2) by simp
      have x2: "?all = (Sys_fork True # ce @ pre) @ [Sys_fork False, Perror ''fork'']"
        using j(3) by simp
      have x3: "Suc j < length (i # is)" using j(1) by simp
      have ex: "\<exists>j'<length (i # is). \<exists>pre'. forks_of ?all = replicate j' True @ [False]
                  \<and> ?all = pre' @ [Sys_fork False, Perror ''fork'']"
        using x1 x2 x3 by blast
      show ?thesis using t False ex by (intro exI [of _ ?all]) simp
    qed
  qed
qed

lemma sys_pipe_trace:
  "sys_pipe w = (r, w1) \<Longrightarrow> \<exists>evs. trace w1 = trace w @ evs \<and> forks_of evs = []"
  by (auto simp: sys_pipe_def Let_def trace_emit emit_def split: if_splits option.splits)

lemma make_pipes_trace:
  "make_pipes k w = (r, w') \<Longrightarrow> \<exists>evs. trace w' = trace w @ evs \<and> forks_of evs = []"
proof (induction k arbitrary: w r w')
  case 0
  then show ?case by simp
next
  case (Suc k)
  obtain p w1 where p: "sys_pipe w = (p, w1)" by (cases "sys_pipe w")
  obtain e1 where e1: "trace w1 = trace w @ e1" "forks_of e1 = []"
    using sys_pipe_trace [OF p] by blast
  show ?case
  proof (cases p)
    case None
    then have "w' = perror ''pipe'' w1" using Suc.prems p by simp
    then have "trace w' = trace w @ (e1 @ [Perror ''pipe''])" using e1 by (simp add: trace_perror)
    moreover have "forks_of (e1 @ [Perror ''pipe'']) = []" using e1 by (simp add: forks_of_append)
    ultimately show ?thesis by blast
  next
    case (Some rw)
    obtain r' w2 where rec: "make_pipes k w1 = (r', w2)" by (cases "make_pipes k w1")
    obtain e2 where e2: "trace w2 = trace w1 @ e2" "forks_of e2 = []"
      using Suc.IH [OF rec] by blast
    have "w' = w2" using Suc.prems p Some rec by (cases rw; cases r') auto
    then have "trace w' = trace w @ (e1 @ e2)" using e1 e2 by simp
    moreover have "forks_of (e1 @ e2) = []" using e1 e2 by (simp add: forks_of_append)
    ultimately show ?thesis by blast
  qed
qed

text \<open>
  C2, as stated, fails: in \<^verbatim>\<open>ls | wc\<close> with a \<^verbatim>\<open>fork\<close> that fails for the first stage,
  the failure is reported and no second \<^verbatim>\<open>fork\<close> is made.
\<close>

theorem execute_pipeline_later_stages_not_attempted:
  "new_events tty_world (snd (execute_command (tty_world\<lparr>grants := (\<lambda>n. n < 1)\<rparr>)
       (map Some [''ls'', ''|'', ''wc''])))
     = [Sys_pipe True, Sys_fork False, Perror ''fork'']
   \<and> forks_of (new_events tty_world (snd (execute_command (tty_world\<lparr>grants := (\<lambda>n. n < 1)\<rparr>)
       (map Some [''ls'', ''|'', ''wc''])))) = [False]
   \<and> length (forks_of (new_events tty_world (snd (execute_command (tty_world\<lparr>grants := (\<lambda>n. n < 1)\<rparr>)
       (map Some [''ls'', ''|'', ''wc'']))))) \<noteq> 2"
  by code_simp

text \<open>
  C2, amended. \<open>execute_pipeline\<close> returns 1, and makes at most one \<^verbatim>\<open>fork\<close> per stage.
  When a \<^verbatim>\<open>fork\<close> fails, every \<^verbatim>\<open>fork\<close> before it succeeded, the failure is
  reported with \<^verbatim>\<open>perror("fork")\<close>, and that report is the last thing the function
  does: the stages after the failed one are not attempted.
\<close>

theorem execute_pipeline_stops_at_failed_fork:
  assumes "execute_pipeline w args cmd_args num_cmds = (status, w')"
  shows "status = 1
       \<and> trace w' = trace w @ new_events w w'
       \<and> length (forks_of (new_events w w')) \<le> num_cmds
       \<and> (False \<in> set (forks_of (new_events w w')) \<longrightarrow>
            (\<exists>j<num_cmds. forks_of (new_events w w') = replicate j True @ [False])
          \<and> (\<exists>pre. new_events w w' = pre @ [Sys_fork False, Perror ''fork'']))"
proof -
  have st: "status = 1"
    using assms execute_pipeline_status [of w args cmd_args num_cmds] by simp
  obtain r w1 where mp: "make_pipes (num_cmds - 1) w = (r, w1)"
    by (cases "make_pipes (num_cmds - 1) w")
  obtain e1 where e1: "trace w1 = trace w @ e1" "forks_of e1 = []"
    using make_pipes_trace [OF mp] by blast
  show ?thesis
  proof (cases r)
    case None
    then have "w' = w1" using assms mp by (simp add: execute_pipeline_def)
    then have t: "trace w' = trace w @ e1" using e1 by simp
    have "new_events w w' = e1" using t by (rule new_events_eq)
    then show ?thesis using st t e1 by simp
  next
    case (Some pipefd)
    obtain ok w2 where sp: "spawn_loop args cmd_args pipefd num_cmds [0..<num_cmds] w1 = (ok, w2)"
      by (cases "spawn_loop args cmd_args pipefd num_cmds [0..<num_cmds] w1")
    obtain e2 where e2: "trace w2 = trace w1 @ e2"
      "if ok then forks_of e2 = replicate (length [0..<num_cmds]) True
       else \<exists>j<length [0..<num_cmds]. \<exists>pre. forks_of e2 = replicate j True @ [False]
              \<and> e2 = pre @ [Sys_fork False, Perror ''fork'']"
      using spawn_loop_forks [OF sp] by blast
    show ?thesis
    proof (cases ok)
      case True
      then have "w' = wait_all num_cmds (fold (\<lambda>fd c. sys_close c fd) pipefd w2)"
        using assms mp Some sp by (simp add: execute_pipeline_def)
      then have t: "trace w' = trace w @ (e1 @ e2 @ replicate num_cmds Sys_wait)"
        using e1 e2 by (simp add: trace_wait_all trace_fold_close)
      have n: "new_events w w' = e1 @ e2 @ replicate num_cmds Sys_wait"
        using t by (rule new_events_eq)
      have "forks_of (new_events w w') = replicate num_cmds True"
        using n e1(2) e2(2) True by (simp add: forks_of_append forks_of_waits)
      then show ?thesis using st t n by simp
    next
      case False
      then have "w' = w2" using assms mp Some sp by (simp add: execute_pipeline_def)
      then have t: "trace w' = trace w @ (e1 @ e2)" using e1 e2 by simp
      have n: "new_events w w' = e1 @ e2" using t by (rule new_events_eq)
      obtain j pre where j: "j < num_cmds" "forks_of e2 = replicate j True @ [False]"
        "e2 = pre @ [Sys_fork False, Perror ''fork'']"
        using e2(2) False by auto
      have f: "forks_of (new_events w w') = replicate j True @ [False]"
        using n e1(2) j(2) by (simp add: forks_of_append)
      have "new_events w w' = (e1 @ pre) @ [Sys_fork False, Perror ''fork'']"
        using n j(3) by simp
      then have "\<exists>pre'. new_events w w' = pre' @ [Sys_fork False, Perror ''fork'']" by blast
      moreover have "\<exists>j'<num_cmds. forks_of (new_events w w') = replicate j' True @ [False]"
        using f j(1) by blast
      moreover have "length (forks_of (new_events w w')) \<le> num_cmds"
        using f j(1) by simp
      ultimately show ?thesis using st t n by simp
    qed
  qed
qed

theorem execute_pipeline_stops_at_failed_fork_witness:
  "fst (execute_pipeline (tty_world\<lparr>grants := (\<lambda>n. n < 3)\<rparr>)
          [Some ''a'', None, Some ''b'', None, Some ''c''] [0, 2, 4] 3) = 1
   \<and> new_events (tty_world\<lparr>grants := (\<lambda>n. n < 3)\<rparr>)
        (snd (execute_pipeline (tty_world\<lparr>grants := (\<lambda>n. n < 3)\<rparr>)
          [Some ''a'', None, Some ''b'', None, Some ''c''] [0, 2, 4] 3))
       = [Sys_pipe True, Sys_pipe True, Sys_fork True,
          Child_exec (Some ''a'') [''a''] (Some (Stream ''stdin'')) (Some (Pipe_write 0)) False,
          Child_perror ''execvp'', Sys_fork False, Perror ''fork'']
   \<and> forks_of (new_events (tty_world\<lparr>grants := (\<lambda>n. n < 3)\<rparr>)
        (snd (execute_pipeline (tty_world\<lparr>grants := (\<lambda>n. n < 3)\<rparr>)
          [Some ''a'', None, Some ''b'', None, Some ''c''] [0, 2, 4] 3))) = [True, False]"
proof -
  have events: "new_events (tty_world\<lparr>grants := (\<lambda>n. n < 3)\<rparr>)
        (snd (execute_pipeline (tty_world\<lparr>grants := (\<lambda>n. n < 3)\<rparr>)
          [Some ''a'', None, Some ''b'', None, Some ''c''] [0, 2, 4] 3))
       = [Sys_pipe True, Sys_pipe True, Sys_fork True,
          Child_exec (Some ''a'') [''a''] (Some (Stream ''stdin'')) (Some (Pipe_write 0)) False,
          Child_perror ''execvp'', Sys_fork False, Perror ''fork'']"
    by code_simp
  have "fst (execute_pipeline (tty_world\<lparr>grants := (\<lambda>n. n < 3)\<rparr>)
          [Some ''a'', None, Some ''b'', None, Some ''c''] [0, 2, 4] 3) = 1"
    using execute_pipeline_stops_at_failed_fork [OF surjective_pairing,
          of "tty_world\<lparr>grants := (\<lambda>n. n < 3)\<rparr>"
             "[Some ''a'', None, Some ''b'', None, Some ''c'']" "[0, 2, 4]" 3]
    by simp
  then show ?thesis by (simp add: events)
qed

end
